theory Spec2Isabelle
  imports Complex_Main "HOL-Library.Sublist"
begin

section \<open>JavaScript strings\<close>

text \<open>
  A string is a list of code units; the model covers the code units below 256
  (Basic Latin and Latin-1), which is what \<^typ>\<open>char\<close> holds.  On that range
  \<^verbatim>\<open>String.prototype.toLowerCase\<close> adds 32 to \<^verbatim>\<open>A-Z\<close> and to the
  Latin-1 capitals \<^verbatim>\<open>U+00C0-U+00DE\<close> (the multiplication sign \<^verbatim>\<open>U+00D7\<close>
  excepted) and leaves every other code unit alone.
\<close>

definition toLowerChar :: "char \<Rightarrow> char" where
  "toLowerChar c = (let n = (of_char c :: nat) in
     if (65 \<le> n \<and> n \<le> 90) \<or> (192 \<le> n \<and> n \<le> 222 \<and> n \<noteq> 215)
     then char_of (n + 32) else c)"

definition toLowerCase :: "string \<Rightarrow> string" where
  "toLowerCase s = map toLowerChar s"

text \<open>\<^verbatim>\<open>s.includes(pat)\<close>: \<^verbatim>\<open>pat\<close> occurs in \<^verbatim>\<open>s\<close> as a contiguous substring.\<close>

fun str_includes :: "string \<Rightarrow> string \<Rightarrow> bool" where
  "str_includes [] pat = (pat = [])"
| "str_includes (c # cs) pat = (prefix pat (c # cs) \<or> str_includes cs pat)"

text \<open>
  \<^verbatim>\<open>s.replace(/lit/, rep)\<close> for a regular expression that is a literal without
  anchors and without the \<^verbatim>\<open>g\<close> flag: the leftmost occurrence is replaced.
\<close>

fun replaceFirst :: "string \<Rightarrow> string \<Rightarrow> string \<Rightarrow> string" where
  "replaceFirst pat rep [] = (if pat = [] then rep else [])"
| "replaceFirst pat rep (c # cs) =
     (if prefix pat (c # cs) then rep @ drop (length pat) (c # cs)
      else c # replaceFirst pat rep cs)"

text \<open>
  \<^verbatim>\<open>s.replace(/^(p1|p2|...)/, '')\<close>: the alternatives are tried in order at
  position 0 only, and the first one that is a prefix of \<^verbatim>\<open>s\<close> is removed.
\<close>

fun stripLeading :: "string list \<Rightarrow> string \<Rightarrow> string" where
  "stripLeading [] s = s"
| "stripLeading (p # ps) s =
     (if prefix p s then drop (length p) s else stripLeading ps s)"

text \<open>
  \<^verbatim>\<open>s.replace(/\.(e1|e2|...)$/, '')\<close>: a dot followed by one of the alternatives
  is removed when it ends the string.  No two of the suffixes used by the program
  can end the same string, so the order of the alternatives does not matter.
\<close>

fun stripExtension :: "string list \<Rightarrow> string \<Rightarrow> string" where
  "stripExtension [] s = s"
| "stripExtension (e # es) s =
     (if suffix (CHR ''.'' # e) s then take (length s - Suc (length e)) s
      else stripExtension es s)"

text \<open>\<^verbatim>\<open>s.lastIndexOf(c)\<close>, which is \<^verbatim>\<open>-1\<close> when \<^verbatim>\<open>c\<close> does not occur.\<close>

fun lastIndexOf :: "string \<Rightarrow> char \<Rightarrow> int" where
  "lastIndexOf [] c = - 1"
| "lastIndexOf (x # xs) c =
     (let r = lastIndexOf xs c in
      if 0 \<le> r then r + 1 else if x = c then 0 else - 1)"

text \<open>\<^verbatim>\<open>s.substring(0, e)\<close>: a negative end is taken as 0, a large one as the length.\<close>

definition substring0 :: "string \<Rightarrow> int \<Rightarrow> string" where
  "substring0 s e = take (nat e) s"

text \<open>\<^verbatim>\<open>s.substring(0, s.lastIndexOf('/'))\<close>, the directory part of a path.\<close>

definition dirOf :: "string \<Rightarrow> string" where
  "dirOf p = substring0 p (lastIndexOf p CHR ''/'')"

text \<open>\<^verbatim>\<open>s.split(c)\<close> (never empty) and \<^verbatim>\<open>s.split('/').pop()\<close>.\<close>

fun split :: "char \<Rightarrow> string \<Rightarrow> string list" where
  "split c [] = [[]]"
| "split c (x # xs) =
     (if x = c then [] # split c xs
      else (case split c xs of [] \<Rightarrow> [[x]] | w # ws \<Rightarrow> (x # w) # ws))"

definition lastSegment :: "string \<Rightarrow> string" where
  "lastSegment p = last (split CHR ''/'' p)"

section \<open>Records received from the backend\<close>

text \<open>
  The pages hold the list of files as \<^verbatim>\<open>any[]\<close>, so a field may be absent at run
  time: \<^const>\<open>None\<close> is \<^verbatim>\<open>undefined\<close> (or \<^verbatim>\<open>null\<close>).  Calling a method on
  an absent value raises a \<^verbatim>\<open>TypeError\<close>.
\<close>

record repo_file =
  name :: "string option"
  relative_path :: "string option"
  extension :: "string option"

text \<open>
  Of an analysis and of a generated test only the fields that the coverage computation
  reads are kept; \<open>ident\<close> is the field \<^verbatim>\<open>id\<close>.
\<close>

record analysis =
  ident :: int
  file_path :: "string option"

record generated_test =
  analysis_id :: "int option"
  test_file_path :: "string option"

datatype error = TypeError

text \<open>\<^verbatim>\<open>v.toLowerCase()\<close> on a value that may be absent.\<close>

definition lowerOf :: "string option \<Rightarrow> error + string" where
  "lowerOf v = (case v of None \<Rightarrow> Inl TypeError | Some s \<Rightarrow> Inr (toLowerCase s))"

text \<open>\<^verbatim>\<open>Array.prototype.find\<close>, \<^verbatim>\<open>filter\<close> and \<^verbatim>\<open>forEach\<close> with a callback that may throw.\<close>

fun findE :: "('a \<Rightarrow> error + bool) \<Rightarrow> 'a list \<Rightarrow> error + 'a option" where
  "findE p [] = Inr None"
| "findE p (x # xs) =
     (case p x of Inl e \<Rightarrow> Inl e
      | Inr b \<Rightarrow> if b then Inr (Some x) else findE p xs)"

fun filterE :: "('a \<Rightarrow> error + bool) \<Rightarrow> 'a list \<Rightarrow> error + 'a list" where
  "filterE p [] = Inr []"
| "filterE p (x # xs) =
     (case p x of Inl e \<Rightarrow> Inl e
      | Inr b \<Rightarrow> (case filterE p xs of Inl e \<Rightarrow> Inl e
                 | Inr ys \<Rightarrow> Inr (if b then x # ys else ys)))"

fun forEachE :: "('a \<Rightarrow> 's \<Rightarrow> error + 's) \<Rightarrow> 'a list \<Rightarrow> 's \<Rightarrow> error + 's" where
  "forEachE body [] s = Inr s"
| "forEachE body (x # xs) s =
     (case body x s of Inl e \<Rightarrow> Inl e | Inr s' \<Rightarrow> forEachE body xs s')"

text \<open>
  \<^verbatim>\<open>Set<string>\<close> in insertion order; an element is the value of a
  \<^verbatim>\<open>relative_path\<close> field.  \<^verbatim>\<open>size\<close> is the length of the list.
\<close>

type_synonym path_set = "string option list"

definition setAdd :: "string option \<Rightarrow> path_set \<Rightarrow> path_set" where
  "setAdd v s = (if v \<in> set s then s else s @ [v])"

section \<open>Classification of files\<close>

text \<open>
  \<^verbatim>\<open>isTestFile\<close>: the copy in \<^verbatim>\<open>RepositoryDetails\<close> (lines 457-471) and the copy
  in \<^verbatim>\<open>loadRepositories\<close> of the \<^verbatim>\<open>Repositories\<close> page (lines 360-370) are the
  same text, pattern list included.
\<close>

definition testPatterns :: "string list" where
  "testPatterns =
     [''test_'', ''_test'', ''.test.'', ''.spec.'', ''tests/'', ''test/'', ''__test__'',
      ''test/'', ''spec/'', ''tests/'', ''test/'', ''__tests__'']"

definition isTestFile :: "string option \<Rightarrow> string option \<Rightarrow> error + bool" where
  "isTestFile filePath fileName =
     (case lowerOf filePath of Inl e \<Rightarrow> Inl e
      | Inr lowerPath \<Rightarrow>
     (case lowerOf fileName of Inl e \<Rightarrow> Inl e
      | Inr lowerName \<Rightarrow>
        Inr (list_ex (\<lambda>pattern. str_includes lowerPath pattern
                              \<or> str_includes lowerName pattern) testPatterns)))"

definition codeExtensions :: "string list" where
  "codeExtensions =
     [''.py'', ''.js'', ''.ts'', ''.jsx'', ''.tsx'', ''.java'', ''.cpp'', ''.c'', ''.h'',
      ''.cs'', ''.go'', ''.rs'', ''.rb'', ''.php'']"

text \<open>\<^verbatim>\<open>f.extension?.toLowerCase() || ''\<close> is the empty string for an absent extension.\<close>

definition allCodeFiles :: "repo_file list \<Rightarrow> repo_file list" where
  "allCodeFiles files =
     filter (\<lambda>f. (case extension f of None \<Rightarrow> [] | Some e \<Rightarrow> toLowerCase e)
                   \<in> set codeExtensions) files"

definition sourceFilesOf :: "repo_file list \<Rightarrow> error + repo_file list" where
  "sourceFilesOf files =
     filterE (\<lambda>f. case isTestFile (relative_path f) (name f) of
                     Inl e \<Rightarrow> Inl e | Inr b \<Rightarrow> Inr (\<not> b)) (allCodeFiles files)"

definition testFilesOf :: "repo_file list \<Rightarrow> error + repo_file list" where
  "testFilesOf files =
     filterE (\<lambda>f. isTestFile (relative_path f) (name f)) (allCodeFiles files)"

text \<open>
  \<^verbatim>\<open>totalCoverage\<close> (both pages).  The quotient is a rational number here; the
  program computes it in double precision.
\<close>

definition totalCoverage :: "path_set \<Rightarrow> repo_file list \<Rightarrow> rat" where
  "totalCoverage sourceFilesWithTests sourceFiles =
     (if length sourceFiles > 0
      then (of_nat (length sourceFilesWithTests) / of_nat (length sourceFiles)) * 100
      else 0)"

section \<open>The Repositories list page (\<^verbatim>\<open>loadRepositories\<close>)\<close>

text \<open>The chain of four \<^verbatim>\<open>replace\<close> calls that yields \<^verbatim>\<open>potentialSourceName\<close>.\<close>

definition repos_potentialSourceName :: "string \<Rightarrow> string" where
  "repos_potentialSourceName testName =
     replaceFirst ''.spec.'' ''.''
       (replaceFirst ''.test.'' ''.''
         (replaceFirst ''_test.'' ''.''
           (stripLeading [''test_''] testName)))"

text \<open>The body of the \<^verbatim>\<open>find\<close> callback, once the four strings are lower-cased.\<close>

definition repos_matches :: "string \<Rightarrow> string \<Rightarrow> string \<Rightarrow> string \<Rightarrow> bool" where
  "repos_matches testName testPath sourceName sourcePath =
     (if sourceName = repos_potentialSourceName testName then True
      else
        let testDir = dirOf testPath; sourceDir = dirOf sourcePath in
        if testDir = sourceDir \<or> str_includes testDir ''test'' \<or> str_includes testDir ''tests''
        then
          let baseTestName =
                stripExtension [''py'', ''js'', ''ts'', ''java'']
                  (stripLeading [''test_'', ''_test'', ''.test'', ''.spec''] testName);
              baseSourceName = stripExtension [''py'', ''js'', ''ts'', ''java''] sourceName
          in baseTestName = baseSourceName
        else False)"

definition repos_sourcePred :: "string \<Rightarrow> string \<Rightarrow> repo_file \<Rightarrow> error + bool" where
  "repos_sourcePred testName testPath sourceFile =
     (case lowerOf (name sourceFile) of Inl e \<Rightarrow> Inl e
      | Inr sourceName \<Rightarrow>
     (case lowerOf (relative_path sourceFile) of Inl e \<Rightarrow> Inl e
      | Inr sourcePath \<Rightarrow> Inr (repos_matches testName testPath sourceName sourcePath)))"

text \<open>\<^verbatim>\<open>matchingSource\<close> for one test file (lines 386-413).\<close>

definition repos_matchingSource :: "repo_file list \<Rightarrow> repo_file \<Rightarrow> error + repo_file option" where
  "repos_matchingSource sourceFiles testFile =
     (case lowerOf (name testFile) of Inl e \<Rightarrow> Inl e
      | Inr testName \<Rightarrow>
     (case lowerOf (relative_path testFile) of Inl e \<Rightarrow> Inl e
      | Inr testPath \<Rightarrow> findE (repos_sourcePred testName testPath) sourceFiles))"

definition repos_testFileStep :: "repo_file list \<Rightarrow> repo_file \<Rightarrow> path_set \<Rightarrow> error + path_set" where
  "repos_testFileStep sourceFiles testFile acc =
     (case repos_matchingSource sourceFiles testFile of Inl e \<Rightarrow> Inl e
      | Inr None \<Rightarrow> Inr acc
      | Inr (Some matchingSource) \<Rightarrow> Inr (setAdd (relative_path matchingSource) acc))"

text \<open>The generated tests of the database (lines 421-434).\<close>

definition truthy :: "string option \<Rightarrow> bool" where
  "truthy v = (case v of None \<Rightarrow> False | Some s \<Rightarrow> s \<noteq> [])"

definition repos_analysisPred :: "string \<Rightarrow> repo_file \<Rightarrow> error + bool" where
  "repos_analysisPred analysisPath f =
     (case lowerOf (relative_path f) of Inl e \<Rightarrow> Inl e
      | Inr filePath \<Rightarrow>
     (case lowerOf (name f) of Inl e \<Rightarrow> Inl e
      | Inr fileName \<Rightarrow>
        Inr (str_includes analysisPath fileName \<or> filePath = analysisPath)))"

definition repos_testSource ::
  "repo_file list \<Rightarrow> analysis list \<Rightarrow> generated_test \<Rightarrow> error + repo_file option" where
  "repos_testSource sourceFiles analyses test =
     (case find (\<lambda>a. Some (ident a) = analysis_id test) analyses of
        None \<Rightarrow> Inr None
      | Some testAnalysis \<Rightarrow>
          if truthy (file_path testAnalysis) then
            (case lowerOf (file_path testAnalysis) of Inl e \<Rightarrow> Inl e
             | Inr analysisPath \<Rightarrow> findE (repos_analysisPred analysisPath) sourceFiles)
          else Inr None)"

definition repos_testStep ::
  "repo_file list \<Rightarrow> analysis list \<Rightarrow> generated_test \<Rightarrow> path_set \<Rightarrow> error + path_set" where
  "repos_testStep sourceFiles analyses test acc =
     (case repos_testSource sourceFiles analyses test of Inl e \<Rightarrow> Inl e
      | Inr None \<Rightarrow> Inr acc
      | Inr (Some sourceFile) \<Rightarrow> Inr (setAdd (relative_path sourceFile) acc))"

text \<open>Lines 383-439: the set of covered paths and the percentage.\<close>

definition repos_covered ::
  "repo_file list \<Rightarrow> repo_file list \<Rightarrow> generated_test list \<Rightarrow> analysis list \<Rightarrow> error + path_set" where
  "repos_covered sourceFiles testFiles tests analyses =
     (case forEachE (repos_testFileStep sourceFiles) testFiles [] of Inl e \<Rightarrow> Inl e
      | Inr acc \<Rightarrow> forEachE (repos_testStep sourceFiles analyses) tests acc)"

definition repos_coverage ::
  "repo_file list \<Rightarrow> repo_file list \<Rightarrow> generated_test list \<Rightarrow> analysis list
     \<Rightarrow> error + (path_set \<times> rat)" where
  "repos_coverage sourceFiles testFiles tests analyses =
     (case repos_covered sourceFiles testFiles tests analyses of Inl e \<Rightarrow> Inl e
      | Inr sourceFilesWithTests \<Rightarrow>
          Inr (sourceFilesWithTests, totalCoverage sourceFilesWithTests sourceFiles))"

section \<open>The RepositoryDetails page\<close>

text \<open>The chain of six \<^verbatim>\<open>replace\<close> calls (lines 536-542 and 612-618).\<close>

definition potentialSourceName :: "string \<Rightarrow> string" where
  "potentialSourceName testName =
     replaceFirst ''.e2e.'' ''.''
       (replaceFirst ''e2e.'' ''.''
         (replaceFirst ''.spec.'' ''.''
           (replaceFirst ''.test.'' ''.''
             (replaceFirst ''_test.'' ''.''
               (stripLeading [''test_''] testName)))))"

definition baseName :: "string \<Rightarrow> string" where
  "baseName n = stripExtension [''py'', ''js'', ''ts'', ''java''] n"

definition baseTestName :: "string \<Rightarrow> string" where
  "baseTestName testName =
     baseName (stripLeading [''test_'', ''_test'', ''.test'', ''.spec'', ''e2e'', ''.e2e''] testName)"

text \<open>The body of the \<^verbatim>\<open>find\<close> callback of \<^verbatim>\<open>matchTestFileToSource\<close> (lines 546-568).\<close>

definition details_matches :: "string \<Rightarrow> string \<Rightarrow> string \<Rightarrow> string \<Rightarrow> bool" where
  "details_matches testName testPath sourceName sourcePath =
     (if sourceName = potentialSourceName testName then True
      else
        let testDir = dirOf testPath; sourceDir = dirOf sourcePath in
        if (testDir = sourceDir \<or> str_includes testDir ''test'' \<or> str_includes testDir ''tests'')
           \<and> baseTestName testName = baseName sourceName then True
        else if str_includes testPath (baseName sourceName) then True
        else if str_includes sourcePath (baseTestName testName) then True
        else False)"

definition details_sourcePred :: "string \<Rightarrow> string \<Rightarrow> repo_file \<Rightarrow> error + bool" where
  "details_sourcePred testName testPath sourceFile =
     (case lowerOf (name sourceFile) of Inl e \<Rightarrow> Inl e
      | Inr sourceName \<Rightarrow>
     (case lowerOf (relative_path sourceFile) of Inl e \<Rightarrow> Inl e
      | Inr sourcePath \<Rightarrow> Inr (details_matches testName testPath sourceName sourcePath)))"

definition details_matchingSource :: "repo_file list \<Rightarrow> repo_file \<Rightarrow> error + repo_file option" where
  "details_matchingSource sourceFiles testFile =
     (case lowerOf (name testFile) of Inl e \<Rightarrow> Inl e
      | Inr testName \<Rightarrow>
     (case lowerOf (relative_path testFile) of Inl e \<Rightarrow> Inl e
      | Inr testPath \<Rightarrow> findE (details_sourcePred testName testPath) sourceFiles))"

text \<open>
  \<^verbatim>\<open>matchTestFileToSource\<close> returns the matched file's \<^verbatim>\<open>relative_path\<close> or
  \<^verbatim>\<open>null\<close>; the caller only tests the result for truthiness, so \<^verbatim>\<open>null\<close> and an
  absent path are both \<^const>\<open>None\<close>.
\<close>

definition matchTestFileToSource :: "repo_file list \<Rightarrow> repo_file \<Rightarrow> error + string option" where
  "matchTestFileToSource sourceFiles testFile =
     (case details_matchingSource sourceFiles testFile of Inl e \<Rightarrow> Inl e
      | Inr None \<Rightarrow> Inr None
      | Inr (Some matchingSource) \<Rightarrow> Inr (relative_path matchingSource))"

definition details_testFileStep :: "repo_file list \<Rightarrow> repo_file \<Rightarrow> path_set \<Rightarrow> error + path_set" where
  "details_testFileStep sourceFiles testFile acc =
     (case matchTestFileToSource sourceFiles testFile of Inl e \<Rightarrow> Inl e
      | Inr matchedPath \<Rightarrow>
          Inr (if truthy matchedPath then setAdd matchedPath acc else acc))"

text \<open>Generated tests, first through \<^verbatim>\<open>analysis_id\<close> (lines 587-604).\<close>

definition details_analysisPred :: "string \<Rightarrow> repo_file \<Rightarrow> error + bool" where
  "details_analysisPred analysisPath f =
     (case lowerOf (relative_path f) of Inl e \<Rightarrow> Inl e
      | Inr filePath \<Rightarrow>
     (case lowerOf (name f) of Inl e \<Rightarrow> Inl e
      | Inr fileName \<Rightarrow>
        Inr (str_includes analysisPath fileName
             \<or> filePath = analysisPath
             \<or> str_includes analysisPath filePath
             \<or> str_includes filePath analysisPath
             \<or> fileName = lastSegment analysisPath
             \<or> lastSegment filePath = lastSegment analysisPath)))"

definition details_viaAnalysis ::
  "repo_file list \<Rightarrow> analysis list \<Rightarrow> generated_test \<Rightarrow> error + repo_file option" where
  "details_viaAnalysis sourceFiles analyses test =
     (case analysis_id test of None \<Rightarrow> Inr None
      | Some aid \<Rightarrow>
          if aid = 0 then Inr None
          else
            (case find (\<lambda>a. ident a = aid) analyses of None \<Rightarrow> Inr None
             | Some testAnalysis \<Rightarrow>
                 if truthy (file_path testAnalysis) then
                   (case lowerOf (file_path testAnalysis) of Inl e \<Rightarrow> Inl e
                    | Inr analysisPath \<Rightarrow>
                        findE (details_analysisPred analysisPath) sourceFiles)
                 else Inr None))"

text \<open>Generated tests, then through \<^verbatim>\<open>test_file_path\<close> (lines 608-627).\<close>

definition details_pathPred :: "string \<Rightarrow> string \<Rightarrow> repo_file \<Rightarrow> error + bool" where
  "details_pathPred testFilePath potentialName f =
     (case lowerOf (name f) of Inl e \<Rightarrow> Inl e
      | Inr fileName \<Rightarrow>
     (case lowerOf (relative_path f) of Inl e \<Rightarrow> Inl e
      | Inr filePath \<Rightarrow>
        Inr (fileName = potentialName
             \<or> str_includes testFilePath fileName
             \<or> str_includes filePath
                  (stripExtension [''py'', ''js'', ''ts'', ''jsx'', ''tsx'', ''java'']
                     potentialName))))"

definition details_viaTestFilePath :: "repo_file list \<Rightarrow> generated_test \<Rightarrow> error + repo_file option" where
  "details_viaTestFilePath sourceFiles test =
     (if truthy (test_file_path test) then
        (case lowerOf (test_file_path test) of Inl e \<Rightarrow> Inl e
         | Inr testFilePath \<Rightarrow>
             findE (details_pathPred testFilePath
                      (potentialSourceName (lastSegment testFilePath))) sourceFiles)
      else Inr None)"

definition details_matchedSourceFile ::
  "repo_file list \<Rightarrow> analysis list \<Rightarrow> generated_test \<Rightarrow> error + repo_file option" where
  "details_matchedSourceFile sourceFiles analyses test =
     (case details_viaAnalysis sourceFiles analyses test of Inl e \<Rightarrow> Inl e
      | Inr (Some f) \<Rightarrow> Inr (Some f)
      | Inr None \<Rightarrow> details_viaTestFilePath sourceFiles test)"

definition details_testStep ::
  "repo_file list \<Rightarrow> analysis list \<Rightarrow> generated_test \<Rightarrow> path_set \<Rightarrow> error + path_set" where
  "details_testStep sourceFiles analyses test acc =
     (case details_matchedSourceFile sourceFiles analyses test of Inl e \<Rightarrow> Inl e
      | Inr None \<Rightarrow> Inr acc
      | Inr (Some matchedSourceFile) \<Rightarrow> Inr (setAdd (relative_path matchedSourceFile) acc))"

text \<open>Lines 527-637: the set of covered paths and the percentage.\<close>

definition details_covered ::
  "repo_file list \<Rightarrow> repo_file list \<Rightarrow> generated_test list \<Rightarrow> analysis list \<Rightarrow> error + path_set" where
  "details_covered sourceFiles testFiles tests analyses =
     (case forEachE (details_testFileStep sourceFiles) testFiles [] of Inl e \<Rightarrow> Inl e
      | Inr acc \<Rightarrow> forEachE (details_testStep sourceFiles analyses) tests acc)"

definition details_coverage ::
  "repo_file list \<Rightarrow> repo_file list \<Rightarrow> generated_test list \<Rightarrow> analysis list
     \<Rightarrow> error + (path_set \<times> rat)" where
  "details_coverage sourceFiles testFiles tests analyses =
     (case details_covered sourceFiles testFiles tests analyses of Inl e \<Rightarrow> Inl e
      | Inr sourceFilesWithTests \<Rightarrow>
          Inr (sourceFilesWithTests, totalCoverage sourceFilesWithTests sourceFiles))"

section \<open>From the file listing to the percentage\<close>

text \<open>
  Both pages filter the listing down to code files, split it with \<^const>\<open>isTestFile\<close>
  (source files first, then test files) and run their coverage computation on the result.
\<close>

definition repos_page ::
  "repo_file list \<Rightarrow> generated_test list \<Rightarrow> analysis list \<Rightarrow> error + (path_set \<times> rat)" where
  "repos_page files tests analyses =
     (case sourceFilesOf files of Inl e \<Rightarrow> Inl e
      | Inr sourceFiles \<Rightarrow>
     (case testFilesOf files of Inl e \<Rightarrow> Inl e
      | Inr testFiles \<Rightarrow> repos_coverage sourceFiles testFiles tests analyses))"

definition details_page ::
  "repo_file list \<Rightarrow> generated_test list \<Rightarrow> analysis list \<Rightarrow> error + (path_set \<times> rat)" where
  "details_page files tests analyses =
     (case sourceFilesOf files of Inl e \<Rightarrow> Inl e
      | Inr sourceFiles \<Rightarrow>
     (case testFilesOf files of Inl e \<Rightarrow> Inl e
      | Inr testFiles \<Rightarrow> details_coverage sourceFiles testFiles tests analyses))"

text \<open>
  What \<^verbatim>\<open>loadRepositories\<close> records for a repository (lines 452-459): the percentage
  rounded to one decimal with \<^verbatim>\<open>Math.round(totalCoverage * 10) / 10\<close>, or 0 when
  anything in the computation raised, since the enclosing \<^verbatim>\<open>catch\<close> sets the defaults.
\<close>

definition roundTenth :: "rat \<Rightarrow> rat" where
  "roundTenth x = of_int \<lfloor>x * 10 + 1 / 2\<rfloor> / 10"

definition repos_stats_coverage ::
  "repo_file list \<Rightarrow> generated_test list \<Rightarrow> analysis list \<Rightarrow> rat" where
  "repos_stats_coverage files tests analyses =
     (case repos_page files tests analyses of Inl e \<Rightarrow> 0 | Inr (c, p) \<Rightarrow> roundTenth p)"

section \<open>Notions used in the statements\<close>

text \<open>A record that has both a name and a relative path.\<close>

definition hasFields :: "repo_file \<Rightarrow> bool" where
  "hasFields f = (name f \<noteq> None \<and> relative_path f \<noteq> None)"

text \<open>Two records that differ at most in the letter case of their fields.\<close>

definition sameCase :: "repo_file \<Rightarrow> repo_file \<Rightarrow> bool" where
  "sameCase f g = (lowerOf (name f) = lowerOf (name g)
                   \<and> lowerOf (relative_path f) = lowerOf (relative_path g))"

definition sameCaseAnalysis :: "analysis \<Rightarrow> analysis \<Rightarrow> bool" where
  "sameCaseAnalysis a b = (ident a = ident b \<and> lowerOf (file_path a) = lowerOf (file_path b))"

text \<open>
  Source files whose relative paths agree up to letter case have names that agree up to
  letter case; this holds whenever the name is the last segment of the path.
\<close>

definition pathFixesName :: "repo_file list \<Rightarrow> bool" where
  "pathFixesName sourceFiles =
     list_all (\<lambda>f. list_all (\<lambda>g. lowerOf (relative_path f) = lowerOf (relative_path g)
                                   \<longrightarrow> lowerOf (name f) = lowerOf (name g)) sourceFiles)
              sourceFiles"

text \<open>
  The common shape of the four loop bodies: when a source file was found (and passes the
  guard \<open>K\<close>), its relative path is added to the set.
\<close>

definition addFound ::
  "(repo_file \<Rightarrow> bool) \<Rightarrow> error + repo_file option \<Rightarrow> path_set \<Rightarrow> error + path_set" where
  "addFound K r acc =
     (case r of Inl e \<Rightarrow> Inl e
      | Inr None \<Rightarrow> Inr acc
      | Inr (Some m) \<Rightarrow> Inr (if K m then setAdd (relative_path m) acc else acc))"

text \<open>A \<^verbatim>\<open>find\<close> callback that cannot tell apart records differing in letter case only.\<close>

definition caseBlind :: "(repo_file \<Rightarrow> error + bool) \<Rightarrow> bool" where
  "caseBlind p = (\<forall>f g. sameCase f g \<longrightarrow> p f = p g)"

text \<open>A source file returned by \<^verbatim>\<open>find\<close> with some case-blind callback.\<close>

definition foundBy :: "repo_file list \<Rightarrow> repo_file \<Rightarrow> bool" where
  "foundBy sourceFiles m = (\<exists>q. caseBlind q \<and> findE q sourceFiles = Inr (Some m))"

text \<open>
  Two sets of covered paths, built over two listings that differ in letter case only:
  they agree element by element up to letter case, and every path in them belongs to a
  file that a case-blind callback found.
\<close>

definition caseRelated :: "repo_file list \<Rightarrow> repo_file list \<Rightarrow> path_set \<Rightarrow> path_set \<Rightarrow> bool" where
  "caseRelated S S' a a' =
     (map (map_option toLowerCase) a = map (map_option toLowerCase) a'
      \<and> (\<forall>v\<in>set a. \<exists>m. foundBy S m \<and> relative_path m = v)
      \<and> (\<forall>v\<in>set a'. \<exists>m. foundBy S' m \<and> relative_path m = v))"

text \<open>A record whose name is the last segment of its relative path.\<close>

definition nameIsLastSegment :: "repo_file \<Rightarrow> bool" where
  "nameIsLastSegment f = (name f = map_option lastSegment (relative_path f))"

text \<open>The example inputs of the specification.\<close>

definition mkFile :: "string \<Rightarrow> string \<Rightarrow> string \<Rightarrow> repo_file" where
  "mkFile n p e = \<lparr>name = Some n, relative_path = Some p, extension = Some e\<rparr>"

definition calc_py :: repo_file where
  "calc_py = mkFile ''calc.py'' ''src/calc.py'' ''.py''"

definition util_py :: repo_file where
  "util_py = mkFile ''util.py'' ''src/util.py'' ''.py''"

definition test_calc_py :: repo_file where
  "test_calc_py = mkFile ''test_calc.py'' ''tests/test_calc.py'' ''.py''"

definition calc_test_js :: repo_file where
  "calc_test_js = mkFile ''calc.test.js'' ''src/calc.test.js'' ''.js''"

definition lib_calc_py :: repo_file where
  "lib_calc_py = mkFile ''calc.py'' ''lib/calc.py'' ''.py''"

definition calc_java :: repo_file where
  "calc_java = mkFile ''calc.java'' ''src/calc.java'' ''.java''"

definition helpers_py :: repo_file where
  "helpers_py = mkFile ''helpers.py'' ''lib/helpers.py'' ''.py''"

definition helpers_test_py :: repo_file where
  "helpers_test_py = mkFile ''helpers_test.py'' ''lib/helpers_test.py'' ''.py''"

definition a_py :: repo_file where
  "a_py = mkFile ''a.py'' ''src/a.py'' ''.py''"

definition b_py :: repo_file where
  "b_py = mkFile ''b.py'' ''src/b.py'' ''.py''"

definition c_py :: repo_file where
  "c_py = mkFile ''c.py'' ''src/c.py'' ''.py''"

definition lib_a_py :: repo_file where
  "lib_a_py = mkFile ''a.py'' ''lib/a.py'' ''.py''"

definition test9 :: generated_test where
  "test9 = \<lparr>analysis_id = Some 9, test_file_path = None\<rparr>"

definition analysis9 :: analysis where
  "analysis9 = \<lparr>ident = 9, file_path = Some ''src/a.py''\<rparr>"

definition test_calculator_py :: repo_file where
  "test_calculator_py = mkFile ''test_calculator.py'' ''tests/test_calculator.py'' ''.py''"

text \<open>Records of the listing without a \<^verbatim>\<open>name\<close> field.\<close>

definition nameless_py :: repo_file where
  "nameless_py = \<lparr>name = None, relative_path = Some ''src/a.py'', extension = Some ''.py''\<rparr>"

definition nameless_txt :: repo_file where
  "nameless_txt = \<lparr>name = None, relative_path = Some ''notes.txt'', extension = Some ''.txt''\<rparr>"

text \<open>Records that differ in letter case, and two records that share a path up to case.\<close>

definition mod_a_upper :: repo_file where
  "mod_a_upper = mkFile ''a.py'' ''Src/mod.py'' ''.py''"

definition mod_a_lower :: repo_file where
  "mod_a_lower = mkFile ''a.py'' ''src/mod.py'' ''.py''"

definition mod_b :: repo_file where
  "mod_b = mkFile ''b.py'' ''src/mod.py'' ''.py''"

definition test_a_py :: repo_file where
  "test_a_py = mkFile ''test_a.py'' ''tests/test_a.py'' ''.py''"

definition test_b_py :: repo_file where
  "test_b_py = mkFile ''test_b.py'' ''tests/test_b.py'' ''.py''"

definition calc_py_upper :: repo_file where
  "calc_py_upper = mkFile ''Calc.PY'' ''SRC/Calc.py'' ''.PY''"

section \<open>Strings, \<^verbatim>\<open>find\<close> and \<^verbatim>\<open>forEach\<close>\<close>

lemma str_includes_sublist: "str_includes s pat \<longleftrightarrow> sublist pat s"
  by (induction s) (simp_all add: sublist_Cons_right)

lemma toLowerChar_idem:
  "toLowerChar (toLowerChar c) = toLowerChar c"
  by (simp add: toLowerChar_def Let_def)

lemma toLowerCase_idem: "toLowerCase (toLowerCase s) = toLowerCase s"
  by (simp add: toLowerCase_def toLowerChar_idem)

lemma toLowerCase_Nil_iff: "toLowerCase s = [] \<longleftrightarrow> s = []"
  by (simp add: toLowerCase_def)

lemma toLowerCase_sublist_fixed:
  assumes "sublist n (toLowerCase p)"
  shows "toLowerCase n = n"
proof -
  have "set n \<subseteq> set (toLowerCase p)"
    using assms by (rule set_mono_sublist)
  then have "\<forall>c\<in>set n. toLowerChar c = c"
    by (auto simp: toLowerCase_def toLowerChar_idem)
  then show ?thesis
    unfolding toLowerCase_def by (simp add: map_idI)
qed

lemma setAdd_set: "set (setAdd v s) = insert v (set s)"
  by (auto simp: setAdd_def)

lemma setAdd_distinct: "distinct s \<Longrightarrow> distinct (setAdd v s)"
  by (simp add: setAdd_def)

lemma findE_Some:
  "findE p xs = Inr (Some a) \<Longrightarrow> a \<in> set xs \<and> p a = Inr True"
  by (induction xs) (auto split: sum.splits if_splits)

lemma findE_total:
  "(\<And>x. x \<in> set xs \<Longrightarrow> \<exists>b. p x = Inr b) \<Longrightarrow> \<exists>r. findE p xs = Inr r"
proof (induction xs)
  case Nil
  show ?case by simp
next
  case (Cons x xs)
  obtain b where b: "p x = Inr b" using Cons.prems[of x] by auto
  have "\<exists>r. findE p xs = Inr r" using Cons by simp
  then show ?case using b by auto
qed

lemma findE_first:
  "(\<And>x. x \<in> set pre \<Longrightarrow> p x = Inr False) \<Longrightarrow> p s = Inr True
     \<Longrightarrow> findE p (pre @ s # post) = Inr (Some s)"
  by (induction pre) auto

lemma findE_exists:
  "(\<And>x. x \<in> set xs \<Longrightarrow> \<exists>b. p x = Inr b) \<Longrightarrow> s \<in> set xs \<Longrightarrow> p s = Inr True
     \<Longrightarrow> \<exists>m. findE p xs = Inr (Some m)"
proof (induction xs)
  case Nil
  then show ?case by simp
next
  case (Cons x xs)
  obtain b where b: "p x = Inr b" using Cons.prems(1)[of x] by auto
  show ?case
  proof (cases b)
    case True
    then show ?thesis using b by simp
  next
    case False
    then have "s \<in> set xs" using Cons.prems b by auto
    then have "\<exists>m. findE p xs = Inr (Some m)"
      using Cons.IH Cons.prems by simp
    then show ?thesis using b False by simp
  qed
qed

lemma findE_unique:
  "findE p xs = Inr (Some a) \<Longrightarrow> findE q xs = Inr (Some b)
     \<Longrightarrow> p b = Inr True \<Longrightarrow> q a = Inr True \<Longrightarrow> a = b"
  by (induction xs) (auto split: sum.splits if_splits)

lemma findE_rel:
  assumes "list_all2 Q xs ys" and "\<And>x y. Q x y \<Longrightarrow> p x = p' y"
  shows "rel_sum (=) (rel_option Q) (findE p xs) (findE p' ys)"
  using assms(1)
proof (induction rule: list_all2_induct)
  case Nil
  show ?case by simp
next
  case (Cons x xs y ys)
  have "p x = p' y" using Cons.hyps(1) assms(2) by simp
  then show ?case using Cons by (auto split: sum.splits)
qed

lemma forEachE_append:
  "forEachE body (xs @ ys) s =
     (case forEachE body xs s of Inl e \<Rightarrow> Inl e | Inr s' \<Rightarrow> forEachE body ys s')"
  by (induction xs arbitrary: s) (auto split: sum.splits)

lemma forEachE_invariant:
  "forEachE body xs s = Inr s' \<Longrightarrow> I s
     \<Longrightarrow> (\<And>x a a'. x \<in> set xs \<Longrightarrow> I a \<Longrightarrow> body x a = Inr a' \<Longrightarrow> I a')
     \<Longrightarrow> I s'"
proof (induction xs arbitrary: s)
  case Nil
  then show ?case by simp
next
  case (Cons x xs)
  from Cons.prems(1) obtain a where a: "body x s = Inr a" and r: "forEachE body xs a = Inr s'"
    by (auto split: sum.splits)
  have "I a" using Cons.prems(3)[of x s a] Cons.prems(2) a by simp
  show ?case
    by (rule Cons.IH[OF r \<open>I a\<close>]) (use Cons.prems(3) in auto)
qed

lemma forEachE_total:
  "(\<And>x a. x \<in> set xs \<Longrightarrow> \<exists>a'. body x a = Inr a') \<Longrightarrow> \<exists>s'. forEachE body xs s = Inr s'"
proof (induction xs arbitrary: s)
  case Nil
  show ?case by simp
next
  case (Cons x xs)
  obtain a where a: "body x s = Inr a" using Cons.prems[of x s] by auto
  have "\<exists>s'. forEachE body xs a = Inr s'" using Cons by simp
  then show ?case using a by simp
qed

lemma forEachE_rel:
  assumes "list_all2 Q xs ys" and "R s t"
    and "\<And>x y a b. Q x y \<Longrightarrow> R a b \<Longrightarrow> rel_sum (=) R (body x a) (body' y b)"
  shows "rel_sum (=) R (forEachE body xs s) (forEachE body' ys t)"
  using assms(1,2)
proof (induction arbitrary: s t rule: list_all2_induct)
  case Nil
  then show ?case by simp
next
  case (Cons x xs y ys)
  have "rel_sum (=) R (body x s) (body' y t)"
    using assms(3) Cons.hyps(1) Cons.prems by simp
  then show ?case
    using Cons.IH by (auto split: sum.splits elim!: rel_sum.cases)
qed


lemma findE_Some_split:
  "findE p xs = Inr (Some a) \<Longrightarrow>
     \<exists>pre post. xs = pre @ a # post \<and> (\<forall>x\<in>set pre. p x = Inr False) \<and> p a = Inr True"
proof (induction xs)
  case Nil
  then show ?case by simp
next
  case (Cons x xs)
  show ?case
  proof (cases "p x = Inr True")
    case True
    then have "a = x" using Cons.prems by simp
    then have "x # xs = [] @ a # xs \<and> (\<forall>y\<in>set []. p y = Inr False) \<and> p a = Inr True"
      using True by simp
    then show ?thesis by blast
  next
    case False
    then have px: "p x = Inr False" and rest: "findE p xs = Inr (Some a)"
      using Cons.prems by (auto split: sum.splits if_splits)
    from Cons.IH[OF rest] obtain pre post where
      "xs = pre @ a # post" "\<forall>y\<in>set pre. p y = Inr False" "p a = Inr True" by blast
    then have "x # xs = (x # pre) @ a # post \<and> (\<forall>y\<in>set (x # pre). p y = Inr False)
                 \<and> p a = Inr True"
      using px by simp
    then show ?thesis by blast
  qed
qed

lemma forEachE_fixed:
  "(\<And>x. x \<in> set xs \<Longrightarrow> body x s = Inr s) \<Longrightarrow> forEachE body xs s = Inr s"
  by (induction xs) auto

subsection \<open>The four loop bodies\<close>

lemma repos_testFileStep_shape:
  "repos_testFileStep S = (\<lambda>t. addFound (\<lambda>m. True) (repos_matchingSource S t))"
  by (rule ext)+ (simp add: repos_testFileStep_def addFound_def split: sum.splits option.splits)

lemma repos_testStep_shape:
  "repos_testStep S A = (\<lambda>g. addFound (\<lambda>m. True) (repos_testSource S A g))"
  by (rule ext)+ (simp add: repos_testStep_def addFound_def split: sum.splits option.splits)

lemma details_testFileStep_shape:
  "details_testFileStep S =
     (\<lambda>t. addFound (\<lambda>m. truthy (relative_path m)) (details_matchingSource S t))"
  by (rule ext)+
    (simp add: details_testFileStep_def matchTestFileToSource_def addFound_def truthy_def
          split: sum.splits option.splits)

lemma details_testStep_shape:
  "details_testStep S A = (\<lambda>g. addFound (\<lambda>m. True) (details_matchedSourceFile S A g))"
  by (rule ext)+ (simp add: details_testStep_def addFound_def split: sum.splits option.splits)

lemma repos_matchingSource_mem:
  "repos_matchingSource S t = Inr (Some m) \<Longrightarrow> m \<in> set S"
  by (auto simp: repos_matchingSource_def split: sum.splits dest: findE_Some)

lemma repos_testSource_mem:
  "repos_testSource S A g = Inr (Some m) \<Longrightarrow> m \<in> set S"
  by (auto simp: repos_testSource_def split: sum.splits option.splits if_splits dest: findE_Some)

lemma details_matchingSource_mem:
  "details_matchingSource S t = Inr (Some m) \<Longrightarrow> m \<in> set S"
  by (auto simp: details_matchingSource_def split: sum.splits dest: findE_Some)

lemma details_matchedSourceFile_mem:
  "details_matchedSourceFile S A g = Inr (Some m) \<Longrightarrow> m \<in> set S"
  by (auto simp: details_matchedSourceFile_def details_viaAnalysis_def
        details_viaTestFilePath_def
      split: sum.splits option.splits if_splits dest: findE_Some)

lemma addFound_loop_invariant:
  assumes "forEachE (\<lambda>x. addFound K (F x)) xs s = Inr s'"
    and "\<And>x m. x \<in> set xs \<Longrightarrow> F x = Inr (Some m) \<Longrightarrow> m \<in> set S"
    and "set s \<subseteq> relative_path ` set S" and "distinct s"
  shows "set s' \<subseteq> relative_path ` set S \<and> distinct s'"
proof (rule forEachE_invariant[OF assms(1), where I = "\<lambda>a. set a \<subseteq> relative_path ` set S \<and> distinct a"])
  show "set s \<subseteq> relative_path ` set S \<and> distinct s" using assms(3,4) by simp
next
  fix x a a'
  assume x: "x \<in> set xs" and a: "set a \<subseteq> relative_path ` set S \<and> distinct a"
    and step: "addFound K (F x) a = Inr a'"
  show "set a' \<subseteq> relative_path ` set S \<and> distinct a'"
    using step a assms(2)[OF x]
    by (auto simp: addFound_def setAdd_def split: sum.splits option.splits if_splits)
qed

lemma covered_bound:
  assumes "set c \<subseteq> relative_path ` set S" and "distinct c"
  shows "length c \<le> length S"
proof -
  have "length c = card (set c)" using assms(2) by (simp add: distinct_card)
  also have "\<dots> \<le> card (relative_path ` set S)" using assms(1) by (simp add: card_mono)
  also have "\<dots> \<le> card (set S)" by (simp add: card_image_le)
  also have "\<dots> \<le> length S" by (rule card_length)
  finally show ?thesis .
qed

lemma totalCoverage_range:
  assumes "length c \<le> length S"
  shows "0 \<le> totalCoverage c S \<and> totalCoverage c S \<le> 100"
proof (cases "length S > 0")
  case True
  have "(of_nat (length c) :: rat) \<le> of_nat (length S)" using assms by simp
  then have "(of_nat (length c) :: rat) * 100 \<le> 100 * of_nat (length S)" by simp
  then show ?thesis using True by (simp add: totalCoverage_def pos_divide_le_eq)
next
  case False
  then show ?thesis by (simp add: totalCoverage_def)
qed

lemma repos_covered_invariant:
  assumes "repos_covered S T G A = Inr c"
  shows "set c \<subseteq> relative_path ` set S \<and> distinct c"
proof -
  from assms obtain a where
    a: "forEachE (\<lambda>t. addFound (\<lambda>m. True) (repos_matchingSource S t)) T [] = Inr a"
    and c: "forEachE (\<lambda>g. addFound (\<lambda>m. True) (repos_testSource S A g)) G a = Inr c"
    by (auto simp: repos_covered_def repos_testFileStep_shape repos_testStep_shape
          split: sum.splits)
  have "set a \<subseteq> relative_path ` set S \<and> distinct a"
    by (rule addFound_loop_invariant[OF a]) (auto dest: repos_matchingSource_mem)
  then show ?thesis
    using addFound_loop_invariant[OF c, of S] by (auto dest: repos_testSource_mem)
qed

lemma details_covered_invariant:
  assumes "details_covered S T G A = Inr c"
  shows "set c \<subseteq> relative_path ` set S \<and> distinct c"
proof -
  from assms obtain a where
    a: "forEachE (\<lambda>t. addFound (\<lambda>m. truthy (relative_path m)) (details_matchingSource S t)) T []
          = Inr a"
    and c: "forEachE (\<lambda>g. addFound (\<lambda>m. True) (details_matchedSourceFile S A g)) G a = Inr c"
    by (auto simp: details_covered_def details_testFileStep_shape details_testStep_shape
          split: sum.splits)
  have "set a \<subseteq> relative_path ` set S \<and> distinct a"
    by (rule addFound_loop_invariant[OF a]) (auto dest: details_matchingSource_mem)
  then show ?thesis
    using addFound_loop_invariant[OF c, of S] by (auto dest: details_matchedSourceFile_mem)
qed

section \<open>The covered paths are paths of source files\<close>

text \<open>
  C3.  Whenever either page's computation returns a set of covered paths and a
  percentage, every covered path is the \<^verbatim>\<open>relative_path\<close> of one of the given source
  files, the set has at most as many elements as there are source files, and the
  percentage lies between 0 and 100.
\<close>

theorem covered_subset_and_percentage_range:
  assumes "repos_coverage S T G A = Inr (c, p) \<or> details_coverage S T G A = Inr (c, p)"
  shows "set c \<subseteq> relative_path ` set S \<and> length c \<le> length S \<and> 0 \<le> p \<and> p \<le> 100"
proof -
  have inv: "set c \<subseteq> relative_path ` set S \<and> distinct c" and p: "p = totalCoverage c S"
    using assms repos_covered_invariant[of S T G A c] details_covered_invariant[of S T G A c]
    by (auto simp: repos_coverage_def details_coverage_def split: sum.splits)
  have len: "length c \<le> length S" using inv by (simp add: covered_bound)
  show ?thesis using inv len totalCoverage_range[OF len] p by simp
qed

theorem covered_subset_and_percentage_range_witness:
  "repos_coverage [calc_py] [test_calc_py] [] [] = Inr ([Some ''src/calc.py''], 100)
   \<and> set [Some ''src/calc.py''] \<subseteq> relative_path ` set [calc_py]
   \<and> length [Some ''src/calc.py''] \<le> length [calc_py]
   \<and> (0::rat) \<le> 100 \<and> (100::rat) \<le> 100"
proof -
  have h: "repos_coverage [calc_py] [test_calc_py] [] [] = Inr ([Some ''src/calc.py''], 100)"
    by code_simp
  show ?thesis
    using covered_subset_and_percentage_range[OF disjI1[OF h]] h by simp
qed

section \<open>The test-file classifier\<close>

text \<open>
  C5.  For a record that has a name and a relative path, \<^const>\<open>isTestFile\<close> answers
  true exactly when the lower-cased path or the lower-cased name contains one of the nine
  substrings \<^verbatim>\<open>test_\<close>, \<^verbatim>\<open>_test\<close>, \<^verbatim>\<open>.test.\<close>, \<^verbatim>\<open>.spec.\<close>, \<^verbatim>\<open>tests/\<close>,
  \<^verbatim>\<open>test/\<close>, \<^verbatim>\<open>__test__\<close>, \<^verbatim>\<open>spec/\<close>, \<^verbatim>\<open>__tests__\<close>.  The right-hand side
  mentions the patterns as a set, so neither their order nor the repetitions in the
  program's list matter; and two records that differ in letter case only are classified
  alike.
\<close>

theorem isTestFile_iff_patterns:
  "isTestFile (Some p) (Some n) =
     Inr (\<exists>pat \<in> {''test_'', ''_test'', ''.test.'', ''.spec.'', ''tests/'', ''test/'',
                    ''__test__'', ''spec/'', ''__tests__''}.
            sublist pat (toLowerCase p) \<or> sublist pat (toLowerCase n))
   \<and> (toLowerCase p' = toLowerCase p \<and> toLowerCase n' = toLowerCase n
        \<longrightarrow> isTestFile (Some p') (Some n') = isTestFile (Some p) (Some n))"
  by (auto simp: isTestFile_def lowerOf_def testPatterns_def str_includes_sublist)

theorem isTestFile_iff_patterns_witness:
  "toLowerCase ''SRC/Calc.Spec.TS'' = toLowerCase ''src/calc.spec.ts''
   \<and> toLowerCase ''Calc.Spec.TS'' = toLowerCase ''calc.spec.ts''
   \<and> isTestFile (Some ''SRC/Calc.Spec.TS'') (Some ''Calc.Spec.TS'')
       = isTestFile (Some ''src/calc.spec.ts'') (Some ''calc.spec.ts'')
   \<and> isTestFile (Some ''src/calc.spec.ts'') (Some ''calc.spec.ts'') = Inr True"
proof -
  have h: "toLowerCase ''SRC/Calc.Spec.TS'' = toLowerCase ''src/calc.spec.ts''
           \<and> toLowerCase ''Calc.Spec.TS'' = toLowerCase ''calc.spec.ts''"
    by code_simp
  have v: "isTestFile (Some ''src/calc.spec.ts'') (Some ''calc.spec.ts'') = Inr True"
    by code_simp
  show ?thesis
    using isTestFile_iff_patterns[of "''src/calc.spec.ts''" "''calc.spec.ts''"
            "''SRC/Calc.Spec.TS''" "''Calc.Spec.TS''"] h v
    by blast
qed

section \<open>No source files\<close>

lemma repos_matchingSource_Nil:
  "hasFields t \<Longrightarrow> repos_matchingSource [] t = Inr None"
  by (auto simp: repos_matchingSource_def hasFields_def lowerOf_def)

lemma details_matchingSource_Nil:
  "hasFields t \<Longrightarrow> details_matchingSource [] t = Inr None"
  by (auto simp: details_matchingSource_def hasFields_def lowerOf_def)

lemma truthy_lowerOf: "truthy v \<Longrightarrow> \<exists>s. lowerOf v = Inr s"
  by (cases v) (simp_all add: truthy_def lowerOf_def)

lemma repos_testSource_Nil: "repos_testSource [] A g = Inr None"
  by (auto simp: repos_testSource_def split: option.splits dest: truthy_lowerOf)

lemma details_matchedSourceFile_Nil: "details_matchedSourceFile [] A g = Inr None"
  by (auto simp: details_matchedSourceFile_def details_viaAnalysis_def
        details_viaTestFilePath_def
      split: option.splits sum.splits dest: truthy_lowerOf)

lemma repos_covered_Nil:
  assumes "list_all hasFields T"
  shows "repos_covered [] T G A = Inr []"
proof -
  have "forEachE (repos_testFileStep []) T [] = Inr []"
    using assms
    by (intro forEachE_fixed)
       (simp add: repos_testFileStep_def repos_matchingSource_Nil list_all_iff)
  moreover have "forEachE (repos_testStep [] A) G [] = Inr []"
    by (intro forEachE_fixed) (simp add: repos_testStep_def repos_testSource_Nil)
  ultimately show ?thesis by (simp add: repos_covered_def)
qed

lemma details_covered_Nil:
  assumes "list_all hasFields T"
  shows "details_covered [] T G A = Inr []"
proof -
  have "forEachE (details_testFileStep []) T [] = Inr []"
    using assms
    by (intro forEachE_fixed)
       (simp add: details_testFileStep_def matchTestFileToSource_def
          details_matchingSource_Nil list_all_iff truthy_def)
  moreover have "forEachE (details_testStep [] A) G [] = Inr []"
    by (intro forEachE_fixed) (simp add: details_testStep_def details_matchedSourceFile_Nil)
  ultimately show ?thesis by (simp add: details_covered_def)
qed

text \<open>
  C4.  With an empty list of source files the percentage is 0 on both pages: no result
  with another percentage is possible, and when every test file has a name and a
  relative path the computation does return, with no covered path and the percentage 0,
  whatever the test files, generated tests and analyses are.
\<close>

theorem no_source_files_zero_coverage:
  "(\<forall>c p. repos_coverage [] T G A = Inr (c, p) \<or> details_coverage [] T G A = Inr (c, p)
            \<longrightarrow> p = 0)
   \<and> (list_all hasFields T
        \<longrightarrow> repos_coverage [] T G A = Inr ([], 0) \<and> details_coverage [] T G A = Inr ([], 0))"
  by (auto simp: repos_coverage_def details_coverage_def totalCoverage_def
        repos_covered_Nil details_covered_Nil split: sum.splits)

theorem no_source_files_zero_coverage_witness:
  "list_all hasFields [test_calc_py]
   \<and> repos_coverage [] [test_calc_py] [\<lparr>analysis_id = Some 9, test_file_path = Some ''tests/test_a.py''\<rparr>]
        [\<lparr>ident = 9, file_path = Some ''src/a.py''\<rparr>] = Inr ([], 0)
   \<and> details_coverage [] [test_calc_py] [\<lparr>analysis_id = Some 9, test_file_path = Some ''tests/test_a.py''\<rparr>]
        [\<lparr>ident = 9, file_path = Some ''src/a.py''\<rparr>] = Inr ([], 0)"
proof -
  have h: "list_all hasFields [test_calc_py]"
    by (simp add: hasFields_def test_calc_py_def mkFile_def)
  show ?thesis
    using no_source_files_zero_coverage[of "[test_calc_py]"
        "[\<lparr>analysis_id = Some 9, test_file_path = Some ''tests/test_a.py''\<rparr>]"
        "[\<lparr>ident = 9, file_path = Some ''src/a.py''\<rparr>]"] h
    by blast
qed

section \<open>Adding a test file\<close>

lemma hasFields_lowerOf:
  "hasFields f \<Longrightarrow> \<exists>n p. lowerOf (name f) = Inr n \<and> lowerOf (relative_path f) = Inr p"
  by (auto simp: hasFields_def lowerOf_def)

lemma repos_matchingSource_total:
  assumes "list_all hasFields S" and "hasFields t"
  shows "\<exists>r. repos_matchingSource S t = Inr r"
proof -
  obtain tn tp where t: "lowerOf (name t) = Inr tn" "lowerOf (relative_path t) = Inr tp"
    using hasFields_lowerOf[OF assms(2)] by blast
  have "\<exists>r. findE (repos_sourcePred tn tp) S = Inr r"
  proof (rule findE_total)
    fix x assume "x \<in> set S"
    then have "hasFields x" using assms(1) by (simp add: list_all_iff)
    then show "\<exists>b. repos_sourcePred tn tp x = Inr b"
      by (auto simp: repos_sourcePred_def dest: hasFields_lowerOf)
  qed
  then show ?thesis using t by (simp add: repos_matchingSource_def)
qed

lemma details_matchingSource_total:
  assumes "list_all hasFields S" and "hasFields t"
  shows "\<exists>r. details_matchingSource S t = Inr r"
proof -
  obtain tn tp where t: "lowerOf (name t) = Inr tn" "lowerOf (relative_path t) = Inr tp"
    using hasFields_lowerOf[OF assms(2)] by blast
  have "\<exists>r. findE (details_sourcePred tn tp) S = Inr r"
  proof (rule findE_total)
    fix x assume "x \<in> set S"
    then have "hasFields x" using assms(1) by (simp add: list_all_iff)
    then show "\<exists>b. details_sourcePred tn tp x = Inr b"
      by (auto simp: details_sourcePred_def dest: hasFields_lowerOf)
  qed
  then show ?thesis using t by (simp add: details_matchingSource_def)
qed

lemma repos_analysisPred_total:
  "hasFields x \<Longrightarrow> \<exists>b. repos_analysisPred ap x = Inr b"
  by (auto simp: repos_analysisPred_def dest: hasFields_lowerOf)

lemma details_analysisPred_total:
  "hasFields x \<Longrightarrow> \<exists>b. details_analysisPred ap x = Inr b"
  by (auto simp: details_analysisPred_def dest: hasFields_lowerOf)

lemma details_pathPred_total:
  "hasFields x \<Longrightarrow> \<exists>b. details_pathPred tp pn x = Inr b"
  by (auto simp: details_pathPred_def dest: hasFields_lowerOf)

lemma repos_testSource_total:
  assumes "list_all hasFields S"
  shows "\<exists>r. repos_testSource S A g = Inr r"
proof -
  have "\<exists>r. findE (repos_analysisPred ap) S = Inr r" for ap
    using assms by (intro findE_total repos_analysisPred_total) (simp add: list_all_iff)
  then show ?thesis
    by (auto simp: repos_testSource_def split: option.splits dest: truthy_lowerOf)
qed

lemma details_viaAnalysis_total:
  assumes "list_all hasFields S"
  shows "\<exists>r. details_viaAnalysis S A g = Inr r"
proof -
  have "\<exists>r. findE (details_analysisPred ap) S = Inr r" for ap
    using assms by (intro findE_total details_analysisPred_total) (simp add: list_all_iff)
  then show ?thesis
    by (auto simp: details_viaAnalysis_def split: option.splits dest: truthy_lowerOf)
qed

lemma details_viaTestFilePath_total:
  assumes "list_all hasFields S"
  shows "\<exists>r. details_viaTestFilePath S g = Inr r"
proof -
  have "\<exists>r. findE (details_pathPred tp pn) S = Inr r" for tp pn
    using assms by (intro findE_total details_pathPred_total) (simp add: list_all_iff)
  then show ?thesis
    by (auto simp: details_viaTestFilePath_def dest: truthy_lowerOf)
qed

lemma details_matchedSourceFile_total:
  assumes "list_all hasFields S"
  shows "\<exists>r. details_matchedSourceFile S A g = Inr r"
  using details_viaAnalysis_total[OF assms, of A g] details_viaTestFilePath_total[OF assms, of g]
  by (auto simp: details_matchedSourceFile_def split: option.splits)

lemma addFound_total: "r = Inr x \<Longrightarrow> \<exists>a'. addFound K r a = Inr a'"
  by (simp add: addFound_def split: option.splits)

lemma addFound_grow:
  assumes "distinct a \<and> distinct b \<and> set a \<subseteq> set b \<and> set b \<subseteq> insert v (set a)"
  shows "rel_sum (=)
           (\<lambda>a b. distinct a \<and> distinct b \<and> set a \<subseteq> set b \<and> set b \<subseteq> insert v (set a))
           (addFound K r a) (addFound K r b)"
  using assms
  by (cases r) (auto simp: addFound_def setAdd_def split: option.splits)

lemma two_loops_append:
  assumes tot1: "\<And>x. x \<in> set T \<or> x = t \<Longrightarrow> \<exists>r. F x = Inr r"
    and tot2: "\<And>g. g \<in> set G \<Longrightarrow> \<exists>r. H g = Inr r"
  shows "\<exists>c c'.
      (case forEachE (\<lambda>x. addFound K (F x)) T [] of Inl e \<Rightarrow> Inl e
       | Inr a \<Rightarrow> forEachE (\<lambda>g. addFound K' (H g)) G a) = Inr c
    \<and> (case forEachE (\<lambda>x. addFound K (F x)) (T @ [t]) [] of Inl e \<Rightarrow> Inl e
       | Inr a \<Rightarrow> forEachE (\<lambda>g. addFound K' (H g)) G a) = Inr c'
    \<and> set c \<subseteq> set c' \<and> length c \<le> length c' \<and> length c' \<le> length c + 1"
proof -
  let ?R = "\<lambda>v a b. distinct a \<and> distinct b \<and> set a \<subseteq> set b \<and> set b \<subseteq> insert v (set a)"
  obtain a where a: "forEachE (\<lambda>x. addFound K (F x)) T [] = Inr a"
    using forEachE_total[of T "\<lambda>x. addFound K (F x)" "[]"] tot1 addFound_total by metis
  have da: "distinct a"
    by (rule forEachE_invariant[OF a, where I = distinct])
       (auto simp: addFound_def setAdd_def split: sum.splits option.splits if_splits)
  obtain r where r: "F t = Inr r" using tot1[of t] by auto
  obtain b where b: "addFound K (F t) a = Inr b" using addFound_total[OF r] by blast
  have ab: "forEachE (\<lambda>x. addFound K (F x)) (T @ [t]) [] = Inr b"
    by (simp add: forEachE_append a b)
  have "\<exists>v. ?R v a b"
  proof (cases r)
    case None
    then have "b = a" using b r by (simp add: addFound_def)
    then show ?thesis using da by auto
  next
    case (Some m)
    then have "b = a \<or> b = setAdd (relative_path m) a"
      using b r by (auto simp: addFound_def split: if_splits)
    then have "?R (relative_path m) a b"
      using da by (auto simp: setAdd_def split: if_splits)
    then show ?thesis by blast
  qed
  then obtain v where v: "?R v a b" by blast
  have rel: "rel_sum (=) (?R v) (forEachE (\<lambda>g. addFound K' (H g)) G a)
               (forEachE (\<lambda>g. addFound K' (H g)) G b)"
    by (rule forEachE_rel[where Q = "(=)"])
       (use v in \<open>auto simp: list.rel_eq intro!: addFound_grow\<close>)
  obtain c where c: "forEachE (\<lambda>g. addFound K' (H g)) G a = Inr c"
    using forEachE_total[of G "\<lambda>g. addFound K' (H g)" a] tot2 addFound_total by metis
  obtain c' where c': "forEachE (\<lambda>g. addFound K' (H g)) G b = Inr c'"
    using forEachE_total[of G "\<lambda>g. addFound K' (H g)" b] tot2 addFound_total by metis
  have R: "?R v c c'" using rel c c' by simp
  have l1: "length c = card (set c)" and l2: "length c' = card (set c')"
    using R by (simp_all add: distinct_card)
  have "card (set c) \<le> card (set c')" using R by (simp add: card_mono)
  moreover have "card (set c') \<le> card (insert v (set c))" using R by (simp add: card_mono)
  moreover have "card (insert v (set c)) \<le> card (set c) + 1" by (simp add: card_insert_if)
  ultimately have "length c \<le> length c' \<and> length c' \<le> length c + 1" using l1 l2 by simp
  then show ?thesis using a ab c c' R by simp
qed

lemma totalCoverage_mono:
  "length c \<le> length c' \<Longrightarrow> totalCoverage c S \<le> totalCoverage c' S"
  by (simp add: totalCoverage_def divide_right_mono)

text \<open>
  C9.  When every record has a name and a relative path, appending one more test file to
  the list of test files keeps every covered path covered, enlarges the set of covered
  paths by at most one element, and does not lower the percentage; this holds on both
  pages, whether or not the new test file matches a source file.
\<close>

theorem appending_test_file_monotone:
  assumes "list_all hasFields S" and "list_all hasFields T" and "hasFields t"
  shows "(\<exists>c p c' p'. repos_coverage S T G A = Inr (c, p)
            \<and> repos_coverage S (T @ [t]) G A = Inr (c', p')
            \<and> set c \<subseteq> set c' \<and> length c \<le> length c' \<and> length c' \<le> length c + 1 \<and> p \<le> p')
       \<and> (\<exists>c p c' p'. details_coverage S T G A = Inr (c, p)
            \<and> details_coverage S (T @ [t]) G A = Inr (c', p')
            \<and> set c \<subseteq> set c' \<and> length c \<le> length c' \<and> length c' \<le> length c + 1 \<and> p \<le> p')"
proof -
  have T: "\<And>x. x \<in> set T \<or> x = t \<Longrightarrow> hasFields x"
    using assms(2,3) by (auto simp: list_all_iff)
  have "\<exists>c c'. repos_covered S T G A = Inr c \<and> repos_covered S (T @ [t]) G A = Inr c'
          \<and> set c \<subseteq> set c' \<and> length c \<le> length c' \<and> length c' \<le> length c + 1"
    unfolding repos_covered_def repos_testFileStep_shape repos_testStep_shape
    by (rule two_loops_append)
       (use T assms(1) in \<open>auto intro: repos_matchingSource_total repos_testSource_total\<close>)
  then have 1: "\<exists>c p c' p'. repos_coverage S T G A = Inr (c, p)
            \<and> repos_coverage S (T @ [t]) G A = Inr (c', p')
            \<and> set c \<subseteq> set c' \<and> length c \<le> length c' \<and> length c' \<le> length c + 1 \<and> p \<le> p'"
    by (auto simp: repos_coverage_def totalCoverage_mono)
  have "\<exists>c c'. details_covered S T G A = Inr c \<and> details_covered S (T @ [t]) G A = Inr c'
          \<and> set c \<subseteq> set c' \<and> length c \<le> length c' \<and> length c' \<le> length c + 1"
    unfolding details_covered_def details_testFileStep_shape details_testStep_shape
    by (rule two_loops_append)
       (use T assms(1) in
         \<open>auto intro: details_matchingSource_total details_matchedSourceFile_total\<close>)
  then have 2: "\<exists>c p c' p'. details_coverage S T G A = Inr (c, p)
            \<and> details_coverage S (T @ [t]) G A = Inr (c', p')
            \<and> set c \<subseteq> set c' \<and> length c \<le> length c' \<and> length c' \<le> length c + 1 \<and> p \<le> p'"
    by (auto simp: details_coverage_def totalCoverage_mono)
  show ?thesis using 1 2 by blast
qed

theorem appending_test_file_monotone_witness:
  "list_all hasFields [calc_py, util_py] \<and> list_all hasFields [] \<and> hasFields test_calc_py
   \<and> (\<exists>c p c' p'. repos_coverage [calc_py, util_py] [] [] [] = Inr (c, p)
          \<and> repos_coverage [calc_py, util_py] ([] @ [test_calc_py]) [] [] = Inr (c', p')
          \<and> set c \<subseteq> set c' \<and> length c \<le> length c' \<and> length c' \<le> length c + 1 \<and> p \<le> p')
   \<and> repos_coverage [calc_py, util_py] [] [] [] = Inr ([], 0)
   \<and> repos_coverage [calc_py, util_py] ([] @ [test_calc_py]) [] []
       = Inr ([Some ''src/calc.py''], 50)"
proof -
  have h1: "list_all hasFields [calc_py, util_py]"
    by (simp add: hasFields_def calc_py_def util_py_def mkFile_def)
  have h2: "list_all hasFields []" by simp
  have h3: "hasFields test_calc_py"
    by (simp add: hasFields_def test_calc_py_def mkFile_def)
  have v1: "repos_coverage [calc_py, util_py] [] [] [] = Inr ([], 0)"
    by code_simp
  have v2: "repos_coverage [calc_py, util_py] ([] @ [test_calc_py]) [] []
              = Inr ([Some ''src/calc.py''], 50)"
    by code_simp
  show ?thesis
    using appending_test_file_monotone[OF h1 h2 h3, of "[]" "[]"] h1 h2 h3 v1 v2 by blast
qed

section \<open>Which source file a match marks\<close>

lemma addFound_loop_contains:
  "forEachE (\<lambda>x. addFound K (F x)) xs s = Inr s' \<Longrightarrow>
     set s \<subseteq> set s'
     \<and> (\<forall>x\<in>set xs. \<forall>m. F x = Inr (Some m) \<and> K m \<longrightarrow> relative_path m \<in> set s')"
proof (induction xs arbitrary: s)
  case Nil
  then show ?case by simp
next
  case (Cons x xs)
  from Cons.prems obtain a where a: "addFound K (F x) s = Inr a"
    and r: "forEachE (\<lambda>x. addFound K (F x)) xs a = Inr s'"
    by (auto split: sum.splits)
  have sa: "set s \<subseteq> set a" and xa: "\<forall>m. F x = Inr (Some m) \<and> K m \<longrightarrow> relative_path m \<in> set a"
    using a by (auto simp: addFound_def setAdd_def split: sum.splits option.splits if_splits)
  show ?case using Cons.IH[OF r] sa xa by auto
qed

lemma two_loops_contains:
  assumes tot1: "\<And>x. x \<in> set T \<Longrightarrow> \<exists>r. F x = Inr r"
    and tot2: "\<And>g. g \<in> set G \<Longrightarrow> \<exists>r. H g = Inr r"
  shows "\<exists>c.
      (case forEachE (\<lambda>x. addFound K (F x)) T [] of Inl e \<Rightarrow> Inl e
       | Inr a \<Rightarrow> forEachE (\<lambda>g. addFound K' (H g)) G a) = Inr c
    \<and> (\<forall>x\<in>set T. \<forall>m. F x = Inr (Some m) \<and> K m \<longrightarrow> relative_path m \<in> set c)
    \<and> (\<forall>g\<in>set G. \<forall>m. H g = Inr (Some m) \<and> K' m \<longrightarrow> relative_path m \<in> set c)"
proof -
  obtain a where a: "forEachE (\<lambda>x. addFound K (F x)) T [] = Inr a"
    using forEachE_total[of T "\<lambda>x. addFound K (F x)" "[]"] tot1 addFound_total by metis
  obtain c where c: "forEachE (\<lambda>g. addFound K' (H g)) G a = Inr c"
    using forEachE_total[of G "\<lambda>g. addFound K' (H g)" a] tot2 addFound_total by metis
  show ?thesis
    using a c addFound_loop_contains[OF a] addFound_loop_contains[OF c] by auto
qed

lemma repos_covered_contains:
  assumes "list_all hasFields S" and "list_all hasFields T"
  shows "\<exists>c. repos_covered S T G A = Inr c
    \<and> (\<forall>t\<in>set T. \<forall>m. repos_matchingSource S t = Inr (Some m) \<longrightarrow> relative_path m \<in> set c)
    \<and> (\<forall>g\<in>set G. \<forall>m. repos_testSource S A g = Inr (Some m) \<longrightarrow> relative_path m \<in> set c)"
proof -
  have tot1: "\<And>x. x \<in> set T \<Longrightarrow> \<exists>r. repos_matchingSource S x = Inr r"
    using assms by (auto simp: list_all_iff intro: repos_matchingSource_total)
  have tot2: "\<And>g. g \<in> set G \<Longrightarrow> \<exists>r. repos_testSource S A g = Inr r"
    using assms by (auto intro: repos_testSource_total)
  show ?thesis
    unfolding repos_covered_def repos_testFileStep_shape repos_testStep_shape
    using two_loops_contains[where F = "repos_matchingSource S" and H = "repos_testSource S A"
        and K = "\<lambda>m. True" and K' = "\<lambda>m. True", OF tot1 tot2]
    by simp
qed

lemma details_covered_contains:
  assumes "list_all hasFields S" and "list_all hasFields T"
  shows "\<exists>c. details_covered S T G A = Inr c
    \<and> (\<forall>t\<in>set T. \<forall>m. details_matchingSource S t = Inr (Some m) \<and> truthy (relative_path m)
          \<longrightarrow> relative_path m \<in> set c)
    \<and> (\<forall>g\<in>set G. \<forall>m. details_matchedSourceFile S A g = Inr (Some m)
          \<longrightarrow> relative_path m \<in> set c)"
proof -
  have tot1: "\<And>x. x \<in> set T \<Longrightarrow> \<exists>r. details_matchingSource S x = Inr r"
    using assms by (auto simp: list_all_iff intro: details_matchingSource_total)
  have tot2: "\<And>g. g \<in> set G \<Longrightarrow> \<exists>r. details_matchedSourceFile S A g = Inr r"
    using assms by (auto intro: details_matchedSourceFile_total)
  show ?thesis
    unfolding details_covered_def details_testFileStep_shape details_testStep_shape
    using two_loops_contains[where F = "details_matchingSource S"
        and H = "details_matchedSourceFile S A"
        and K = "\<lambda>m. truthy (relative_path m)" and K' = "\<lambda>m. True", OF tot1 tot2]
    by simp
qed

lemma findE_first_match:
  assumes "\<And>x. x \<in> set S \<Longrightarrow> \<exists>b. p x = Inr b" and "s \<in> set S" and "p s = Inr True"
  shows "\<exists>pre m post. findE p S = Inr (Some m) \<and> S = pre @ m # post
           \<and> (\<forall>x\<in>set pre. p x = Inr False) \<and> p m = Inr True
           \<and> (\<forall>pre' post'. S = pre' @ s # post' \<and> (\<forall>x\<in>set pre'. p x = Inr False)
                 \<longrightarrow> m = s)"
proof -
  obtain m where m: "findE p S = Inr (Some m)"
    using findE_exists[of S p s] assms by blast
  have "m = s" if "S = pre' @ s # post'" and "\<forall>x\<in>set pre'. p x = Inr False" for pre' post'
    using findE_first[of pre' p s post'] that assms(3) m by simp
  then show ?thesis using m findE_Some_split[OF m] by blast
qed

lemma repos_first_match_covered:
  assumes S: "list_all hasFields S" and T: "list_all hasFields T" and t: "t \<in> set T"
    and s: "s \<in> set S" and tn: "lowerOf (name t) = Inr tn"
    and tp: "lowerOf (relative_path t) = Inr tp"
    and ps: "repos_sourcePred tn tp s = Inr True"
  shows "\<exists>c p pre m post. repos_coverage S T G A = Inr (c, p) \<and> S = pre @ m # post
          \<and> (\<forall>x\<in>set pre. repos_sourcePred tn tp x = Inr False)
          \<and> repos_sourcePred tn tp m = Inr True \<and> relative_path m \<in> set c
          \<and> (\<forall>pre' post'. S = pre' @ s # post'
                \<and> (\<forall>x\<in>set pre'. repos_sourcePred tn tp x = Inr False) \<longrightarrow> m = s)"
proof -
  have tot: "\<And>x. x \<in> set S \<Longrightarrow> \<exists>b. repos_sourcePred tn tp x = Inr b"
    using S by (auto simp: list_all_iff repos_sourcePred_def dest!: hasFields_lowerOf)
  obtain pre m post where m: "findE (repos_sourcePred tn tp) S = Inr (Some m)"
    and first: "S = pre @ m # post" "\<forall>x\<in>set pre. repos_sourcePred tn tp x = Inr False"
      "repos_sourcePred tn tp m = Inr True"
      "\<forall>pre' post'. S = pre' @ s # post'
          \<and> (\<forall>x\<in>set pre'. repos_sourcePred tn tp x = Inr False) \<longrightarrow> m = s"
    using findE_first_match[where p = "repos_sourcePred tn tp" and S = S and s = s, OF tot s ps] by blast
  have ms: "repos_matchingSource S t = Inr (Some m)"
    using m tn tp by (simp add: repos_matchingSource_def)
  obtain c where c: "repos_covered S T G A = Inr c" and mc: "relative_path m \<in> set c"
    using repos_covered_contains[OF S T, of G A] t ms by blast
  have "repos_coverage S T G A = Inr (c, totalCoverage c S)"
    using c by (simp add: repos_coverage_def)
  then show ?thesis using first mc by blast
qed

lemma details_first_match_covered:
  assumes S: "list_all hasFields S" and T: "list_all hasFields T" and t: "t \<in> set T"
    and s: "s \<in> set S" and tn: "lowerOf (name t) = Inr tn"
    and tp: "lowerOf (relative_path t) = Inr tp"
    and ps: "details_sourcePred tn tp s = Inr True"
  shows "\<exists>c p pre m post. details_coverage S T G A = Inr (c, p) \<and> S = pre @ m # post
          \<and> (\<forall>x\<in>set pre. details_sourcePred tn tp x = Inr False)
          \<and> details_sourcePred tn tp m = Inr True
          \<and> (truthy (relative_path m) \<longrightarrow> relative_path m \<in> set c)
          \<and> (\<forall>pre' post'. S = pre' @ s # post'
                \<and> (\<forall>x\<in>set pre'. details_sourcePred tn tp x = Inr False) \<longrightarrow> m = s)"
proof -
  have tot: "\<And>x. x \<in> set S \<Longrightarrow> \<exists>b. details_sourcePred tn tp x = Inr b"
    using S by (auto simp: list_all_iff details_sourcePred_def dest!: hasFields_lowerOf)
  obtain pre m post where m: "findE (details_sourcePred tn tp) S = Inr (Some m)"
    and first: "S = pre @ m # post" "\<forall>x\<in>set pre. details_sourcePred tn tp x = Inr False"
      "details_sourcePred tn tp m = Inr True"
      "\<forall>pre' post'. S = pre' @ s # post'
          \<and> (\<forall>x\<in>set pre'. details_sourcePred tn tp x = Inr False) \<longrightarrow> m = s"
    using findE_first_match[where p = "details_sourcePred tn tp" and S = S and s = s, OF tot s ps] by blast
  have ms: "details_matchingSource S t = Inr (Some m)"
    using m tn tp by (simp add: details_matchingSource_def)
  obtain c where c: "details_covered S T G A = Inr c"
    and mc: "truthy (relative_path m) \<longrightarrow> relative_path m \<in> set c"
    using details_covered_contains[OF S T, of G A] t ms by blast
  have "details_coverage S T G A = Inr (c, totalCoverage c S)"
    using c by (simp add: details_coverage_def)
  then show ?thesis using first mc by blast
qed

text \<open>
  C6, as amended.  Let every record have a name and a relative path, and let the
  lower-cased name of a test file, after the page's chain of replacements
  (\<^const>\<open>repos_potentialSourceName\<close>, \<^const>\<open>potentialSourceName\<close>), equal the lower-cased
  name of a source file \<open>s\<close>.  Then the first source file \<open>m\<close> in list order that
  matches the test file is marked covered (on the details page when its relative path is
  not empty), and \<open>m\<close> is \<open>s\<close> when no source file before \<open>s\<close> matches.  The two
  examples hold: \<^verbatim>\<open>test_calc.py\<close> covers \<^verbatim>\<open>src/calc.py\<close> with the percentage 100, and
  \<^verbatim>\<open>helpers_test.py\<close> covers \<^verbatim>\<open>helpers.py\<close> of the same directory.
\<close>

theorem stripped_name_marks_first_match:
  assumes "list_all hasFields S" and "list_all hasFields T" and "t \<in> set T" and "s \<in> set S"
    and "lowerOf (name t) = Inr tn" and "lowerOf (relative_path t) = Inr tp"
    and "lowerOf (name s) = Inr sn"
  shows
   "(sn = repos_potentialSourceName tn \<longrightarrow>
       (\<exists>c p pre m post. repos_coverage S T G A = Inr (c, p) \<and> S = pre @ m # post
          \<and> (\<forall>x\<in>set pre. repos_sourcePred tn tp x = Inr False)
          \<and> repos_sourcePred tn tp m = Inr True \<and> relative_path m \<in> set c
          \<and> (\<forall>pre' post'. S = pre' @ s # post'
                \<and> (\<forall>x\<in>set pre'. repos_sourcePred tn tp x = Inr False) \<longrightarrow> m = s)))
    \<and> (sn = potentialSourceName tn \<longrightarrow>
       (\<exists>c p pre m post. details_coverage S T G A = Inr (c, p) \<and> S = pre @ m # post
          \<and> (\<forall>x\<in>set pre. details_sourcePred tn tp x = Inr False)
          \<and> details_sourcePred tn tp m = Inr True
          \<and> (truthy (relative_path m) \<longrightarrow> relative_path m \<in> set c)
          \<and> (\<forall>pre' post'. S = pre' @ s # post'
                \<and> (\<forall>x\<in>set pre'. details_sourcePred tn tp x = Inr False) \<longrightarrow> m = s)))
    \<and> repos_coverage [calc_py] [test_calc_py] [] [] = Inr ([Some ''src/calc.py''], 100)
    \<and> details_coverage [calc_py] [test_calc_py] [] [] = Inr ([Some ''src/calc.py''], 100)
    \<and> repos_coverage [helpers_py] [helpers_test_py] [] [] = Inr ([Some ''lib/helpers.py''], 100)
    \<and> details_coverage [helpers_py] [helpers_test_py] [] []
        = Inr ([Some ''lib/helpers.py''], 100)"
proof -
  obtain sp where sp: "lowerOf (relative_path s) = Inr sp"
    using assms(1,4) by (auto simp: list_all_iff dest!: hasFields_lowerOf)
  have 1: "repos_sourcePred tn tp s = Inr True" if "sn = repos_potentialSourceName tn"
    using that assms(7) sp by (simp add: repos_sourcePred_def repos_matches_def)
  have 2: "details_sourcePred tn tp s = Inr True" if "sn = potentialSourceName tn"
    using that assms(7) sp by (simp add: details_sourcePred_def details_matches_def)
  have e1: "repos_coverage [calc_py] [test_calc_py] [] [] = Inr ([Some ''src/calc.py''], 100)"
    by code_simp
  have e2: "details_coverage [calc_py] [test_calc_py] [] [] = Inr ([Some ''src/calc.py''], 100)"
    by code_simp
  have e3: "repos_coverage [helpers_py] [helpers_test_py] [] []
              = Inr ([Some ''lib/helpers.py''], 100)"
    by code_simp
  have e4: "details_coverage [helpers_py] [helpers_test_py] [] []
              = Inr ([Some ''lib/helpers.py''], 100)"
    by code_simp
  note A = repos_first_match_covered[OF assms(1,2,3,4,5,6) 1, of G A]
  note B = details_first_match_covered[OF assms(1,2,3,4,5,6) 2, of G A]
  show ?thesis
    apply (intro conjI impI)
         apply (erule A)
        apply (erule B)
       apply (rule e1)
      apply (rule e2)
     apply (rule e3)
    apply (rule e4)
    done
qed

theorem stripped_name_marks_first_match_witness:
  "list_all hasFields [calc_py] \<and> list_all hasFields [test_calc_py]
   \<and> test_calc_py \<in> set [test_calc_py] \<and> calc_py \<in> set [calc_py]
   \<and> lowerOf (name test_calc_py) = Inr ''test_calc.py''
   \<and> lowerOf (relative_path test_calc_py) = Inr ''tests/test_calc.py''
   \<and> lowerOf (name calc_py) = Inr ''calc.py''
   \<and> ''calc.py'' = repos_potentialSourceName ''test_calc.py''
   \<and> (\<exists>c p pre m post. repos_coverage [calc_py] [test_calc_py] [] [] = Inr (c, p)
          \<and> [calc_py] = pre @ m # post
          \<and> (\<forall>x\<in>set pre. repos_sourcePred ''test_calc.py'' ''tests/test_calc.py'' x = Inr False)
          \<and> repos_sourcePred ''test_calc.py'' ''tests/test_calc.py'' m = Inr True
          \<and> relative_path m \<in> set c
          \<and> (\<forall>pre' post'. [calc_py] = pre' @ calc_py # post'
                \<and> (\<forall>x\<in>set pre'. repos_sourcePred ''test_calc.py'' ''tests/test_calc.py'' x
                                    = Inr False) \<longrightarrow> m = calc_py))"
proof -
  have h1: "list_all hasFields [calc_py]"
    by (simp add: hasFields_def calc_py_def mkFile_def)
  have h2: "list_all hasFields [test_calc_py]"
    by (simp add: hasFields_def test_calc_py_def mkFile_def)
  have h3: "test_calc_py \<in> set [test_calc_py]" by simp
  have h4: "calc_py \<in> set [calc_py]" by simp
  have h5: "lowerOf (name test_calc_py) = Inr ''test_calc.py''" by code_simp
  have h6: "lowerOf (relative_path test_calc_py) = Inr ''tests/test_calc.py''" by code_simp
  have h7: "lowerOf (name calc_py) = Inr ''calc.py''" by code_simp
  have h8: "''calc.py'' = repos_potentialSourceName ''test_calc.py''" by code_simp
  note W = stripped_name_marks_first_match[OF h1 h2 h3 h4 h5 h6 h7, of "[]" "[]"]
  note C = W[THEN conjunct1, THEN mp, OF h8]
  show ?thesis
    apply (intro conjI)
            apply (rule h1)
           apply (rule h2)
          apply (rule h3)
         apply (rule h4)
        apply (rule h5)
       apply (rule h6)
      apply (rule h7)
     apply (rule h8)
    apply (rule C)
    done
qed

theorem same_name_second_file_counterexample:
  "stripLeading [''test_''] ''test_calc.py'' = ''calc.py''
   \<and> name test_calc_py = Some ''test_calc.py''
   \<and> name calc_py = Some ''calc.py''
   \<and> relative_path calc_py = Some ''src/calc.py''
   \<and> repos_coverage [lib_calc_py, calc_py] [test_calc_py] [] [] = Inr ([Some ''lib/calc.py''], 50)
   \<and> details_coverage [lib_calc_py, calc_py] [test_calc_py] [] []
       = Inr ([Some ''lib/calc.py''], 50)
   \<and> Some ''src/calc.py'' \<notin> set [Some ''lib/calc.py'']
   \<and> repos_coverage [calc_java, calc_py] [test_calc_py] [] [] = Inr ([Some ''src/calc.java''], 50)
   \<and> details_coverage [calc_java, calc_py] [test_calc_py] [] []
       = Inr ([Some ''src/calc.java''], 50)
   \<and> Some ''src/calc.py'' \<notin> set [Some ''src/calc.java'']"
proof -
  have 1: "stripLeading [''test_''] ''test_calc.py'' = ''calc.py''" by simp
  have 2: "name test_calc_py = Some ''test_calc.py''"
    by (simp add: test_calc_py_def mkFile_def)
  have 3: "name calc_py = Some ''calc.py''" "relative_path calc_py = Some ''src/calc.py''"
    by (simp_all add: calc_py_def mkFile_def)
  have 4: "repos_coverage [lib_calc_py, calc_py] [test_calc_py] [] []
             = Inr ([Some ''lib/calc.py''], 50)"
    by code_simp
  have 5: "details_coverage [lib_calc_py, calc_py] [test_calc_py] [] []
             = Inr ([Some ''lib/calc.py''], 50)"
    by code_simp
  have 6: "Some ''src/calc.py'' \<notin> set [Some ''lib/calc.py'']" by simp
  have 7: "repos_coverage [calc_java, calc_py] [test_calc_py] [] []
             = Inr ([Some ''src/calc.java''], 50)"
    by code_simp
  have 8: "details_coverage [calc_java, calc_py] [test_calc_py] [] []
             = Inr ([Some ''src/calc.java''], 50)"
    by code_simp
  have 9: "Some ''src/calc.py'' \<notin> set [Some ''src/calc.java'']" by simp
  show ?thesis using 1 2 3 4 5 6 7 8 9 by (intro conjI)
qed

subsection \<open>Generated tests\<close>

lemma repos_testSource_resolved:
  assumes "analysis_id g = Some i" and "find (\<lambda>a. ident a = i) A = Some a"
    and "file_path a = Some fp" and "fp \<noteq> []"
  shows "repos_testSource S A g = findE (repos_analysisPred (toLowerCase fp)) S"
  using assms by (simp add: repos_testSource_def truthy_def lowerOf_def)

lemma details_viaAnalysis_resolved:
  assumes "analysis_id g = Some i" and "find (\<lambda>a. ident a = i) A = Some a"
    and "file_path a = Some fp" and "fp \<noteq> []" and "i \<noteq> 0"
  shows "details_viaAnalysis S A g = findE (details_analysisPred (toLowerCase fp)) S"
  using assms by (simp add: details_viaAnalysis_def truthy_def lowerOf_def)

lemma analysisPred_holds:
  assumes "name s = Some n" and "relative_path s = Some rp"
    and "sublist n (toLowerCase fp) \<or> toLowerCase fp = rp"
  shows "repos_analysisPred (toLowerCase fp) s = Inr True"
    and "details_analysisPred (toLowerCase fp) s = Inr True"
proof -
  have "str_includes (toLowerCase fp) (toLowerCase n) \<or> toLowerCase rp = toLowerCase fp"
    using assms(3) toLowerCase_sublist_fixed[of n fp] toLowerCase_idem[of fp]
    by (auto simp: str_includes_sublist)
  then show "repos_analysisPred (toLowerCase fp) s = Inr True"
    and "details_analysisPred (toLowerCase fp) s = Inr True"
    using assms(1,2)
    by (auto simp: repos_analysisPred_def details_analysisPred_def lowerOf_def)
qed

lemma repos_first_match_covered_test:
  assumes S: "list_all hasFields S" and T: "list_all hasFields T" and g: "g \<in> set G"
    and s: "s \<in> set S" and src: "repos_testSource S A g = findE P S"
    and tot: "\<And>x. hasFields x \<Longrightarrow> \<exists>b. P x = Inr b" and ps: "P s = Inr True"
  shows "\<exists>c p pre m post. repos_coverage S T G A = Inr (c, p) \<and> S = pre @ m # post
          \<and> (\<forall>x\<in>set pre. P x = Inr False) \<and> P m = Inr True \<and> relative_path m \<in> set c
          \<and> (\<forall>pre' post'. S = pre' @ s # post' \<and> (\<forall>x\<in>set pre'. P x = Inr False)
                \<longrightarrow> m = s)"
proof -
  have tot': "\<And>x. x \<in> set S \<Longrightarrow> \<exists>b. P x = Inr b"
    using S tot by (auto simp: list_all_iff)
  obtain pre m post where m: "findE P S = Inr (Some m)"
    and first: "S = pre @ m # post" "\<forall>x\<in>set pre. P x = Inr False" "P m = Inr True"
      "\<forall>pre' post'. S = pre' @ s # post' \<and> (\<forall>x\<in>set pre'. P x = Inr False) \<longrightarrow> m = s"
    using findE_first_match[where p = P and S = S and s = s, OF tot' s ps] by blast
  obtain c where c: "repos_covered S T G A = Inr c" and mc: "relative_path m \<in> set c"
    using repos_covered_contains[OF S T, of G A] g m src by auto
  have "repos_coverage S T G A = Inr (c, totalCoverage c S)"
    using c by (simp add: repos_coverage_def)
  then show ?thesis using first mc by blast
qed

lemma details_first_match_covered_test:
  assumes S: "list_all hasFields S" and T: "list_all hasFields T" and g: "g \<in> set G"
    and s: "s \<in> set S" and src: "details_viaAnalysis S A g = findE P S"
    and tot: "\<And>x. hasFields x \<Longrightarrow> \<exists>b. P x = Inr b" and ps: "P s = Inr True"
  shows "\<exists>c p pre m post. details_coverage S T G A = Inr (c, p) \<and> S = pre @ m # post
          \<and> (\<forall>x\<in>set pre. P x = Inr False) \<and> P m = Inr True \<and> relative_path m \<in> set c
          \<and> (\<forall>pre' post'. S = pre' @ s # post' \<and> (\<forall>x\<in>set pre'. P x = Inr False)
                \<longrightarrow> m = s)"
proof -
  have tot': "\<And>x. x \<in> set S \<Longrightarrow> \<exists>b. P x = Inr b"
    using S tot by (auto simp: list_all_iff)
  obtain pre m post where m: "findE P S = Inr (Some m)"
    and first: "S = pre @ m # post" "\<forall>x\<in>set pre. P x = Inr False" "P m = Inr True"
      "\<forall>pre' post'. S = pre' @ s # post' \<and> (\<forall>x\<in>set pre'. P x = Inr False) \<longrightarrow> m = s"
    using findE_first_match[where p = P and S = S and s = s, OF tot' s ps] by blast
  have ms: "details_matchedSourceFile S A g = Inr (Some m)"
    using m src by (simp add: details_matchedSourceFile_def)
  obtain c where c: "details_covered S T G A = Inr c" and mc: "relative_path m \<in> set c"
    using details_covered_contains[OF S T, of G A] g ms by auto
  have "details_coverage S T G A = Inr (c, totalCoverage c S)"
    using c by (simp add: details_coverage_def)
  then show ?thesis using first mc by blast
qed

lemma example3_any_three:
  assumes S: "list_all hasFields S" and a: "a_py \<in> set S" and len: "length S = 3"
  shows "\<exists>m\<in>set S. repos_coverage S [] [test9] [analysis9] = Inr ([relative_path m], 100 / 3)"
    and "\<exists>m\<in>set S. details_coverage S [] [test9] [analysis9] = Inr ([relative_path m], 100 / 3)"
proof -
  have lp: "toLowerCase ''src/a.py'' = ''src/a.py''" by code_simp
  have tot: "\<And>x. x \<in> set S \<Longrightarrow> \<exists>b. repos_analysisPred ''src/a.py'' x = Inr b"
    "\<And>x. x \<in> set S \<Longrightarrow> \<exists>b. details_analysisPred ''src/a.py'' x = Inr b"
    using S by (auto simp: list_all_iff intro: repos_analysisPred_total details_analysisPred_total)
  have pa: "repos_analysisPred ''src/a.py'' a_py = Inr True" by code_simp
  have pb: "details_analysisPred ''src/a.py'' a_py = Inr True" by code_simp
  have cov: "totalCoverage [v] S = 100 / 3" for v
    using len by (simp add: totalCoverage_def)
  have "\<exists>m. findE (repos_analysisPred ''src/a.py'') S = Inr (Some m)"
    by (rule findE_exists[where s = a_py]) (fact tot(1) a pa)+
  then obtain m where m: "findE (repos_analysisPred ''src/a.py'') S = Inr (Some m)" ..
  have mS: "m \<in> set S" using findE_Some[OF m] by (rule conjunct1)
  have "repos_testSource S [analysis9] test9 = Inr (Some m)"
    using m lp by (simp add: repos_testSource_def test9_def analysis9_def truthy_def lowerOf_def)
  then have "repos_coverage S [] [test9] [analysis9] = Inr ([relative_path m], 100 / 3)"
    by (simp add: repos_coverage_def repos_covered_def repos_testStep_def setAdd_def cov)
  then show "\<exists>m\<in>set S. repos_coverage S [] [test9] [analysis9]
               = Inr ([relative_path m], 100 / 3)"
    using mS by (rule rev_bexI[rotated])
  have "\<exists>m. findE (details_analysisPred ''src/a.py'') S = Inr (Some m)"
    by (rule findE_exists[where s = a_py]) (fact tot(2) a pb)+
  then obtain m' where m': "findE (details_analysisPred ''src/a.py'') S = Inr (Some m')" ..
  have mS': "m' \<in> set S" using findE_Some[OF m'] by (rule conjunct1)
  have "details_matchedSourceFile S [analysis9] test9 = Inr (Some m')"
    using m' lp
    by (simp add: details_matchedSourceFile_def details_viaAnalysis_def test9_def
          analysis9_def truthy_def lowerOf_def)
  then have "details_coverage S [] [test9] [analysis9] = Inr ([relative_path m'], 100 / 3)"
    by (simp add: details_coverage_def details_covered_def details_testStep_def setAdd_def cov)
  then show "\<exists>m\<in>set S. details_coverage S [] [test9] [analysis9]
               = Inr ([relative_path m], 100 / 3)"
    using mS' by (rule rev_bexI[rotated])
qed

text \<open>
  C8, as amended.  Let every record have a name and a relative path, and let a generated
  test carry an \<^verbatim>\<open>analysis_id\<close> whose first analysis in the list has a non-empty
  \<^verbatim>\<open>file_path\<close>, the lower-cased form of which contains the name of a source file \<open>s\<close>
  or equals its relative path.  Then the first source file \<open>m\<close> in list order that
  satisfies the page's condition for that path is marked covered (on the details page for
  an \<^verbatim>\<open>analysis_id\<close> other than 0), and \<open>m\<close> is \<open>s\<close> when no source file before \<open>s\<close>
  satisfies it.  In the example, with any three source files among which is \<^verbatim>\<open>a.py\<close> at
  \<^verbatim>\<open>src/a.py\<close>, one path is covered and the percentage is 100/3; with \<^verbatim>\<open>b.py\<close> and
  \<^verbatim>\<open>c.py\<close> as the other two, the covered path is \<^verbatim>\<open>src/a.py\<close>.
\<close>

theorem analysis_path_marks_first_match:
  assumes "list_all hasFields S" and "list_all hasFields T" and "g \<in> set G" and "s \<in> set S"
    and "analysis_id g = Some i" and "find (\<lambda>a. ident a = i) A = Some a"
    and "file_path a = Some fp" and "fp \<noteq> []"
    and "name s = Some n" and "relative_path s = Some rp"
    and "sublist n (toLowerCase fp) \<or> toLowerCase fp = rp"
  shows
   "(\<exists>c p pre m post. repos_coverage S T G A = Inr (c, p) \<and> S = pre @ m # post
        \<and> (\<forall>x\<in>set pre. repos_analysisPred (toLowerCase fp) x = Inr False)
        \<and> repos_analysisPred (toLowerCase fp) m = Inr True \<and> relative_path m \<in> set c
        \<and> (\<forall>pre' post'. S = pre' @ s # post'
              \<and> (\<forall>x\<in>set pre'. repos_analysisPred (toLowerCase fp) x = Inr False) \<longrightarrow> m = s))
    \<and> (i \<noteq> 0 \<longrightarrow>
       (\<exists>c p pre m post. details_coverage S T G A = Inr (c, p) \<and> S = pre @ m # post
          \<and> (\<forall>x\<in>set pre. details_analysisPred (toLowerCase fp) x = Inr False)
          \<and> details_analysisPred (toLowerCase fp) m = Inr True \<and> relative_path m \<in> set c
          \<and> (\<forall>pre' post'. S = pre' @ s # post'
                \<and> (\<forall>x\<in>set pre'. details_analysisPred (toLowerCase fp) x = Inr False)
                \<longrightarrow> m = s)))
    \<and> (list_all hasFields S3 \<and> a_py \<in> set S3 \<and> length S3 = 3 \<longrightarrow>
         (\<exists>m\<in>set S3. repos_coverage S3 [] [test9] [analysis9]
                        = Inr ([relative_path m], 100 / 3))
         \<and> (\<exists>m\<in>set S3. details_coverage S3 [] [test9] [analysis9]
                        = Inr ([relative_path m], 100 / 3)))
    \<and> repos_coverage [a_py, b_py, c_py] [] [test9] [analysis9]
        = Inr ([Some ''src/a.py''], 100 / 3)
    \<and> details_coverage [a_py, b_py, c_py] [] [test9] [analysis9]
        = Inr ([Some ''src/a.py''], 100 / 3)"
proof -
  note A = repos_first_match_covered_test[OF assms(1,2,3,4)
      repos_testSource_resolved[OF assms(5,6,7,8)] repos_analysisPred_total
      analysisPred_holds(1)[OF assms(9,10,11)]]
  note B = details_first_match_covered_test[OF assms(1,2,3,4)
      details_viaAnalysis_resolved[OF assms(5,6,7,8)] details_analysisPred_total
      analysisPred_holds(2)[OF assms(9,10,11)]]
  have e1: "repos_coverage [a_py, b_py, c_py] [] [test9] [analysis9]
              = Inr ([Some ''src/a.py''], 100 / 3)"
    by code_simp
  have e2: "details_coverage [a_py, b_py, c_py] [] [test9] [analysis9]
              = Inr ([Some ''src/a.py''], 100 / 3)"
    by code_simp
  show ?thesis
    apply (intro conjI impI)
        apply (rule A, assumption)
       apply (erule B, assumption)
      apply (elim conjE, erule (2) example3_any_three(1))
     apply (elim conjE, erule (2) example3_any_three(2))
     apply (rule e1)
    apply (rule e2)
    done
qed

theorem analysis_path_marks_first_match_witness:
  "list_all hasFields [a_py, b_py, c_py] \<and> list_all hasFields []
   \<and> test9 \<in> set [test9] \<and> a_py \<in> set [a_py, b_py, c_py]
   \<and> analysis_id test9 = Some 9 \<and> find (\<lambda>a. ident a = 9) [analysis9] = Some analysis9
   \<and> file_path analysis9 = Some ''src/a.py'' \<and> ''src/a.py'' \<noteq> []
   \<and> name a_py = Some ''a.py'' \<and> relative_path a_py = Some ''src/a.py''
   \<and> (sublist ''a.py'' (toLowerCase ''src/a.py'') \<or> toLowerCase ''src/a.py'' = ''src/a.py'')
   \<and> (\<exists>c p pre m post.
          repos_coverage [a_py, b_py, c_py] [] [test9] [analysis9] = Inr (c, p)
        \<and> [a_py, b_py, c_py] = pre @ m # post
        \<and> (\<forall>x\<in>set pre. repos_analysisPred (toLowerCase ''src/a.py'') x = Inr False)
        \<and> repos_analysisPred (toLowerCase ''src/a.py'') m = Inr True \<and> relative_path m \<in> set c
        \<and> (\<forall>pre' post'. [a_py, b_py, c_py] = pre' @ a_py # post'
              \<and> (\<forall>x\<in>set pre'. repos_analysisPred (toLowerCase ''src/a.py'') x = Inr False)
              \<longrightarrow> m = a_py))"
proof -
  have h1: "list_all hasFields [a_py, b_py, c_py]"
    by (simp add: hasFields_def a_py_def b_py_def c_py_def mkFile_def)
  have h2: "list_all hasFields []" by simp
  have h3: "test9 \<in> set [test9]" by simp
  have h4: "a_py \<in> set [a_py, b_py, c_py]" by simp
  have h5: "analysis_id test9 = Some 9" by (simp add: test9_def)
  have h6: "find (\<lambda>a. ident a = 9) [analysis9] = Some analysis9" by (simp add: analysis9_def)
  have h7: "file_path analysis9 = Some ''src/a.py''" by (simp add: analysis9_def)
  have h8: "''src/a.py'' \<noteq> []" by simp
  have h9: "name a_py = Some ''a.py''" by (simp add: a_py_def mkFile_def)
  have h10: "relative_path a_py = Some ''src/a.py''" by (simp add: a_py_def mkFile_def)
  have lp: "toLowerCase ''src/a.py'' = ''src/a.py''" by code_simp
  have h11: "sublist ''a.py'' (toLowerCase ''src/a.py'') \<or> toLowerCase ''src/a.py'' = ''src/a.py''"
    by (rule disjI2) (rule lp)
  note W = analysis_path_marks_first_match[OF h1 h2 h3 h4 h5 h6 h7 h8 h9 h10 h11]
  note C = W[THEN conjunct1]
  show ?thesis
    apply (intro conjI)
               apply (rule h1)
              apply (rule h2)
             apply (rule h3)
            apply (rule h4)
           apply (rule h5)
          apply (rule h6)
         apply (rule h7)
        apply (rule h8)
       apply (rule h9)
      apply (rule h10)
     apply (rule h11)
    apply (rule C)
    done
qed

theorem same_name_second_analysis_counterexample:
  "analysis_id test9 = Some 9 \<and> ident analysis9 = 9
   \<and> file_path analysis9 = Some ''src/a.py''
   \<and> toLowerCase ''src/a.py'' = ''src/a.py''
   \<and> name a_py = Some ''a.py'' \<and> relative_path a_py = Some ''src/a.py''
   \<and> str_includes ''src/a.py'' ''a.py''
   \<and> repos_coverage [lib_a_py, a_py] [] [test9] [analysis9] = Inr ([Some ''lib/a.py''], 50)
   \<and> details_coverage [lib_a_py, a_py] [] [test9] [analysis9] = Inr ([Some ''lib/a.py''], 50)
   \<and> Some ''src/a.py'' \<notin> set [Some ''lib/a.py'']"
proof -
  have 1: "analysis_id test9 = Some 9" "ident analysis9 = 9"
    "file_path analysis9 = Some ''src/a.py''"
    by (simp_all add: test9_def analysis9_def)
  have 2: "toLowerCase ''src/a.py'' = ''src/a.py''" by code_simp
  have 3: "name a_py = Some ''a.py''" "relative_path a_py = Some ''src/a.py''"
    by (simp_all add: a_py_def mkFile_def)
  have 4: "str_includes ''src/a.py'' ''a.py''" by simp
  have 5: "repos_coverage [lib_a_py, a_py] [] [test9] [analysis9]
             = Inr ([Some ''lib/a.py''], 50)"
    by code_simp
  have 6: "details_coverage [lib_a_py, a_py] [] [test9] [analysis9]
             = Inr ([Some ''lib/a.py''], 50)"
    by code_simp
  have 7: "Some ''src/a.py'' \<notin> set [Some ''lib/a.py'']" by simp
  show ?thesis using 1 2 3 4 5 6 7 by (intro conjI)
qed

section \<open>The two pages compared\<close>

text \<open>
  C1.  The two pages do not compute the same thing.  For the source file \<^verbatim>\<open>calc.py\<close> at
  \<^verbatim>\<open>src/calc.py\<close> and the test file \<^verbatim>\<open>test_calculator.py\<close> at
  \<^verbatim>\<open>tests/test_calculator.py\<close> the list page finds no covered file (0 percent), while the
  details page, whose callback also accepts a test path that contains the source base
  name, marks \<^verbatim>\<open>src/calc.py\<close> covered (100 percent).
\<close>

theorem pages_disagree_on_test_calculator:
  "repos_coverage [calc_py] [test_calculator_py] [] [] = Inr ([], 0)
   \<and> details_coverage [calc_py] [test_calculator_py] [] [] = Inr ([Some ''src/calc.py''], 100)"
proof -
  have 1: "repos_coverage [calc_py] [test_calculator_py] [] [] = Inr ([], 0)"
    by code_simp
  have 2: "details_coverage [calc_py] [test_calculator_py] [] []
             = Inr ([Some ''src/calc.py''], 100)"
    by code_simp
  show ?thesis using 1 2 by (rule conjI)
qed

text \<open>
  C7.  On the second example of the specification (\<^verbatim>\<open>calc.py\<close> and \<^verbatim>\<open>util.py\<close> under
  \<^verbatim>\<open>src/\<close>, test file \<^verbatim>\<open>src/calc.test.js\<close>) the details page returns 50 percent with
  \<^verbatim>\<open>src/calc.py\<close> covered, because the test path contains \<^verbatim>\<open>calc\<close>.  The list page
  returns 0: the candidate name is \<^verbatim>\<open>calc.js\<close>, not \<^verbatim>\<open>calc.py\<close>, and the base of the
  test name stays \<^verbatim>\<open>calc.test\<close>, since the marker \<^verbatim>\<open>.test\<close> is only removed at the start
  of a name.
\<close>

theorem example2_on_both_pages:
  "details_coverage [calc_py, util_py] [calc_test_js] [] [] = Inr ([Some ''src/calc.py''], 50)
   \<and> repos_coverage [calc_py, util_py] [calc_test_js] [] [] = Inr ([], 0)
   \<and> repos_potentialSourceName ''calc.test.js'' = ''calc.js''
   \<and> stripExtension [''py'', ''js'', ''ts'', ''java'']
         (stripLeading [''test_'', ''_test'', ''.test'', ''.spec''] ''calc.test.js'') = ''calc.test''
   \<and> stripExtension [''py'', ''js'', ''ts'', ''java''] ''calc.py'' = ''calc''"
proof -
  have 1: "details_coverage [calc_py, util_py] [calc_test_js] [] []
             = Inr ([Some ''src/calc.py''], 50)"
    by code_simp
  have 2: "repos_coverage [calc_py, util_py] [calc_test_js] [] [] = Inr ([], 0)"
    by code_simp
  have 3: "repos_potentialSourceName ''calc.test.js'' = ''calc.js''"
    by code_simp
  have 4: "stripExtension [''py'', ''js'', ''ts'', ''java'']
         (stripLeading [''test_'', ''_test'', ''.test'', ''.spec''] ''calc.test.js'') = ''calc.test''"
    by (simp add: suffix_to_prefix)
  have 5: "stripExtension [''py'', ''js'', ''ts'', ''java''] ''calc.py'' = ''calc''"
    by (simp add: suffix_to_prefix)
  show ?thesis using 1 2 3 4 5 by (intro conjI)
qed

section \<open>Records with a missing field\<close>

lemma filterE_Inr_iff:
  "(\<exists>r. filterE p xs = Inr r) \<longleftrightarrow> (\<forall>x\<in>set xs. \<exists>b. p x = Inr b)"
  by (induction xs) (auto split: sum.splits)

lemma filterE_subset: "filterE p xs = Inr r \<Longrightarrow> set r \<subseteq> set xs"
  by (induction xs arbitrary: r) (auto split: sum.splits if_splits)

lemma isTestFile_returns_iff:
  "(\<exists>b. isTestFile (relative_path f) (name f) = Inr b) \<longleftrightarrow> hasFields f"
  by (cases "name f"; cases "relative_path f")
     (simp_all add: isTestFile_def lowerOf_def hasFields_def)

lemma sourceFilesOf_returns_iff:
  "(\<exists>r. sourceFilesOf files = Inr r) \<longleftrightarrow> list_all hasFields (allCodeFiles files)"
proof -
  have "(\<exists>b. (case isTestFile (relative_path f) (name f) of Inl e \<Rightarrow> Inl e
               | Inr b \<Rightarrow> Inr (\<not> b)) = Inr b) \<longleftrightarrow> hasFields f" for f
    using isTestFile_returns_iff[of f] by (auto split: sum.splits)
  then show ?thesis
    unfolding sourceFilesOf_def filterE_Inr_iff list_all_iff by simp
qed

lemma testFilesOf_returns_iff:
  "(\<exists>r. testFilesOf files = Inr r) \<longleftrightarrow> list_all hasFields (allCodeFiles files)"
  unfolding testFilesOf_def filterE_Inr_iff list_all_iff
  by (simp add: isTestFile_returns_iff)

lemma repos_coverage_total:
  assumes "list_all hasFields S" and "list_all hasFields T"
  shows "\<exists>r. repos_coverage S T G A = Inr r"
  using repos_covered_contains[OF assms, of G A] by (auto simp: repos_coverage_def)

lemma details_coverage_total:
  assumes "list_all hasFields S" and "list_all hasFields T"
  shows "\<exists>r. details_coverage S T G A = Inr r"
  using details_covered_contains[OF assms, of G A] by (auto simp: details_coverage_def)

lemma page_returns_iff:
  assumes "\<And>S T. list_all hasFields S \<Longrightarrow> list_all hasFields T \<Longrightarrow> \<exists>r. cov S T = Inr r"
  shows "(\<exists>r. (case sourceFilesOf files of Inl e \<Rightarrow> Inl e
               | Inr S \<Rightarrow> (case testFilesOf files of Inl e \<Rightarrow> Inl e | Inr T \<Rightarrow> cov S T)) = Inr r)
         \<longleftrightarrow> list_all hasFields (allCodeFiles files)"
proof
  assume "\<exists>r. (case sourceFilesOf files of Inl e \<Rightarrow> Inl e
               | Inr S \<Rightarrow> (case testFilesOf files of Inl e \<Rightarrow> Inl e | Inr T \<Rightarrow> cov S T)) = Inr r"
  then have "\<exists>r. sourceFilesOf files = Inr r" by (auto split: sum.splits)
  then show "list_all hasFields (allCodeFiles files)" by (simp add: sourceFilesOf_returns_iff)
next
  assume wf: "list_all hasFields (allCodeFiles files)"
  obtain S where S: "sourceFilesOf files = Inr S"
    using wf sourceFilesOf_returns_iff[of files] by blast
  obtain T where T: "testFilesOf files = Inr T"
    using wf testFilesOf_returns_iff[of files] by blast
  have "set S \<subseteq> set (allCodeFiles files)" "set T \<subseteq> set (allCodeFiles files)"
    using S T by (auto simp: sourceFilesOf_def testFilesOf_def dest: filterE_subset)
  then have "list_all hasFields S" "list_all hasFields T"
    using wf by (auto simp: list_all_iff)
  then show "\<exists>r. (case sourceFilesOf files of Inl e \<Rightarrow> Inl e
               | Inr S \<Rightarrow> (case testFilesOf files of Inl e \<Rightarrow> Inl e | Inr T \<Rightarrow> cov S T)) = Inr r"
    using assms S T by simp
qed

lemma page_covered_from_code_files:
  assumes "(case sourceFilesOf files of Inl e \<Rightarrow> Inl e
            | Inr S \<Rightarrow> (case testFilesOf files of Inl e \<Rightarrow> Inl e | Inr T \<Rightarrow> cov S T))
           = Inr (c, p)"
    and "\<And>S T. cov S T = Inr (c, p) \<Longrightarrow> set c \<subseteq> relative_path ` set S"
  shows "\<forall>v\<in>set c. \<exists>f\<in>set (allCodeFiles files). hasFields f \<and> relative_path f = v"
proof -
  from assms(1) obtain S T where S: "sourceFilesOf files = Inr S" and T: "testFilesOf files = Inr T"
    and c: "cov S T = Inr (c, p)"
    by (auto split: sum.splits)
  have sub: "set S \<subseteq> set (allCodeFiles files)"
    using S by (auto simp: sourceFilesOf_def dest: filterE_subset)
  have "list_all hasFields (allCodeFiles files)"
    using S sourceFilesOf_returns_iff[of files] by blast
  then have "\<forall>f\<in>set S. f \<in> set (allCodeFiles files) \<and> hasFields f"
    using sub by (auto simp: list_all_iff)
  then show ?thesis using assms(2)[OF c] by blast
qed

text \<open>
  C2, as amended.  A record without a name or a relative path is passed over silently
  only when its extension is absent or not a code extension: each page's computation on a
  file listing returns exactly when every record with a code extension has both fields,
  and raises a \<^verbatim>\<open>TypeError\<close> otherwise; on the list page \<^verbatim>\<open>loadRepositories\<close>
  catches it and records the percentage 0 for the repository.  When the computation
  returns, every covered path is the relative path of a code file that has both fields.
\<close>

theorem pages_return_iff_code_files_have_fields:
  "((\<exists>r. details_page files G A = Inr r) \<longleftrightarrow> list_all hasFields (allCodeFiles files))
   \<and> ((\<exists>r. repos_page files G A = Inr r) \<longleftrightarrow> list_all hasFields (allCodeFiles files))
   \<and> (\<not> list_all hasFields (allCodeFiles files) \<longrightarrow>
        details_page files G A = Inl TypeError \<and> repos_page files G A = Inl TypeError
        \<and> repos_stats_coverage files G A = 0)
   \<and> (details_page files G A = Inr (c, p) \<or> repos_page files G A = Inr (c, p) \<longrightarrow>
        (\<forall>v\<in>set c. \<exists>f\<in>set (allCodeFiles files). hasFields f \<and> relative_path f = v))"
proof -
  have d: "(\<exists>r. details_page files G A = Inr r) \<longleftrightarrow> list_all hasFields (allCodeFiles files)"
    unfolding details_page_def by (rule page_returns_iff) (rule details_coverage_total)
  have r: "(\<exists>r. repos_page files G A = Inr r) \<longleftrightarrow> list_all hasFields (allCodeFiles files)"
    unfolding repos_page_def by (rule page_returns_iff) (rule repos_coverage_total)
  have e: "x = Inl TypeError" if "\<not> (\<exists>r. x = Inr r)" for x :: "error + (path_set \<times> rat)"
  proof (cases x)
    case (Inl err)
    then show ?thesis by (cases err) simp
  next
    case (Inr v)
    then show ?thesis using that by simp
  qed
  have t0: "\<not> list_all hasFields (allCodeFiles files) \<longrightarrow>
        details_page files G A = Inl TypeError \<and> repos_page files G A = Inl TypeError"
    using d r e by blast
  have t: "\<not> list_all hasFields (allCodeFiles files) \<longrightarrow>
        details_page files G A = Inl TypeError \<and> repos_page files G A = Inl TypeError
        \<and> repos_stats_coverage files G A = 0"
    using t0 by (simp add: repos_stats_coverage_def)
  have cd: "\<forall>v\<in>set c. \<exists>f\<in>set (allCodeFiles files). hasFields f \<and> relative_path f = v"
    if "details_page files G A = Inr (c, p)"
    using that unfolding details_page_def
    by (rule page_covered_from_code_files)
       (auto simp: details_coverage_def split: sum.splits dest: details_covered_invariant)
  have cr: "\<forall>v\<in>set c. \<exists>f\<in>set (allCodeFiles files). hasFields f \<and> relative_path f = v"
    if "repos_page files G A = Inr (c, p)"
    using that unfolding repos_page_def
    by (rule page_covered_from_code_files)
       (auto simp: repos_coverage_def split: sum.splits dest: repos_covered_invariant)
  show ?thesis using d r t cd cr by blast
qed

theorem pages_return_iff_code_files_have_fields_witness:
  "\<not> hasFields nameless_txt
   \<and> list_all hasFields (allCodeFiles [calc_py, test_calc_py, nameless_txt])
   \<and> (\<exists>r. details_page [calc_py, test_calc_py, nameless_txt] [] [] = Inr r)
   \<and> details_page [calc_py, test_calc_py, nameless_txt] [] [] = Inr ([Some ''src/calc.py''], 100)
   \<and> repos_page [calc_py, test_calc_py, nameless_txt] [] [] = Inr ([Some ''src/calc.py''], 100)"
proof -
  have h0: "\<not> hasFields nameless_txt" by (simp add: hasFields_def nameless_txt_def)
  have a: "allCodeFiles [calc_py, test_calc_py, nameless_txt] = [calc_py, test_calc_py]"
    by code_simp
  have h: "list_all hasFields (allCodeFiles [calc_py, test_calc_py, nameless_txt])"
    unfolding a by (simp add: hasFields_def calc_py_def test_calc_py_def mkFile_def)
  note W = pages_return_iff_code_files_have_fields[of "[calc_py, test_calc_py, nameless_txt]"
      "[]" "[]"]
  note C = W[THEN conjunct1, THEN iffD2, OF h]
  have v1: "details_page [calc_py, test_calc_py, nameless_txt] [] []
              = Inr ([Some ''src/calc.py''], 100)"
    by code_simp
  have v2: "repos_page [calc_py, test_calc_py, nameless_txt] [] []
              = Inr ([Some ''src/calc.py''], 100)"
    by code_simp
  show ?thesis using h0 h C v1 v2 by (intro conjI)
qed

theorem missing_name_raises_counterexample:
  "name nameless_py = None \<and> extension nameless_py = Some ''.py''
   \<and> isTestFile (relative_path nameless_py) (name nameless_py) = Inl TypeError
   \<and> details_page [calc_py, nameless_py] [] [] = Inl TypeError
   \<and> repos_page [calc_py, nameless_py] [] [] = Inl TypeError
   \<and> matchTestFileToSource [calc_py] nameless_py = Inl TypeError
   \<and> details_coverage [calc_py] [nameless_py] [] [] = Inl TypeError
   \<and> repos_coverage [calc_py] [nameless_py] [] [] = Inl TypeError"
proof -
  have 1: "name nameless_py = None" "extension nameless_py = Some ''.py''"
    by (simp_all add: nameless_py_def)
  have 2: "isTestFile (relative_path nameless_py) (name nameless_py) = Inl TypeError"
    by code_simp
  have 3: "details_page [calc_py, nameless_py] [] [] = Inl TypeError" by code_simp
  have 4: "repos_page [calc_py, nameless_py] [] [] = Inl TypeError" by code_simp
  have 5: "matchTestFileToSource [calc_py] nameless_py = Inl TypeError" by code_simp
  have 6: "details_coverage [calc_py] [nameless_py] [] [] = Inl TypeError" by code_simp
  have 7: "repos_coverage [calc_py] [nameless_py] [] [] = Inl TypeError" by code_simp
  show ?thesis using 1 2 3 4 5 6 7 by (intro conjI)
qed

section \<open>Letter case\<close>

lemma lowerOf_eq_iff:
  "lowerOf u = lowerOf v \<longleftrightarrow> map_option toLowerCase u = map_option toLowerCase v"
  by (cases u; cases v) (simp_all add: lowerOf_def)

lemma lowerOf_truthy: "lowerOf u = lowerOf v \<Longrightarrow> truthy u = truthy v"
  by (cases u; cases v) (auto simp: lowerOf_def truthy_def toLowerCase_def)

lemma caseBlind_preds:
  "caseBlind (repos_sourcePred tn tp)"
  "caseBlind (repos_analysisPred ap)"
  "caseBlind (details_sourcePred tn tp)"
  "caseBlind (details_analysisPred ap)"
  "caseBlind (details_pathPred tfp pn)"
  by (auto simp: caseBlind_def sameCase_def repos_sourcePred_def repos_analysisPred_def
        details_sourcePred_def details_analysisPred_def details_pathPred_def
      split: sum.splits)

lemma findE_sameCase:
  assumes "list_all2 sameCase S S'" and "caseBlind q"
  shows "rel_sum (=) (rel_option sameCase) (findE q S) (findE q S')"
  using assms(1)
  by (rule findE_rel) (use assms(2) in \<open>simp add: caseBlind_def\<close>)

lemma find_sameCaseAnalysis:
  assumes "list_all2 sameCaseAnalysis A A'"
  shows "rel_option sameCaseAnalysis (find (\<lambda>a. P (ident a)) A) (find (\<lambda>a. P (ident a)) A')"
  using assms
  by (induction rule: list_all2_induct) (auto simp: sameCaseAnalysis_def)

lemma foundBy_mem: "foundBy S m \<Longrightarrow> m \<in> set S"
  by (auto simp: foundBy_def dest: findE_Some)

lemma pathFixesNameD:
  "pathFixesName S \<Longrightarrow> f \<in> set S \<Longrightarrow> g \<in> set S
     \<Longrightarrow> lowerOf (relative_path f) = lowerOf (relative_path g)
     \<Longrightarrow> lowerOf (name f) = lowerOf (name g)"
  unfolding pathFixesName_def list_all_iff by blast

lemma foundBy_unique:
  assumes pf: "pathFixesName S" and m1: "foundBy S m1" and m2: "foundBy S m2"
    and eq: "lowerOf (relative_path m1) = lowerOf (relative_path m2)"
  shows "m1 = m2"
proof -
  obtain q1 where q1: "caseBlind q1" "findE q1 S = Inr (Some m1)"
    using m1 unfolding foundBy_def by blast
  obtain q2 where q2: "caseBlind q2" "findE q2 S = Inr (Some m2)"
    using m2 unfolding foundBy_def by blast
  have "lowerOf (name m1) = lowerOf (name m2)"
    by (rule pathFixesNameD[OF pf foundBy_mem[OF m1] foundBy_mem[OF m2] eq])
  then have sc: "sameCase m1 m2" unfolding sameCase_def using eq by (rule conjI)
  have a: "q1 m1 = Inr True" using findE_Some[OF q1(2)] by (rule conjunct2)
  have b: "q2 m2 = Inr True" using findE_Some[OF q2(2)] by (rule conjunct2)
  have "q1 m1 = q1 m2" "q2 m1 = q2 m2"
    using sc q1(1) q2(1) unfolding caseBlind_def by blast+
  then have "q1 m2 = Inr True" "q2 m1 = Inr True" using a b by simp_all
  then show ?thesis by (rule findE_unique[OF q1(2) q2(2)])
qed

lemma list_all2_sameCase_mem:
  "list_all2 sameCase S S' \<Longrightarrow> y \<in> set S' \<Longrightarrow> \<exists>x\<in>set S. sameCase x y"
  by (induction rule: list_all2_induct) auto

lemma pathFixesName_sameCase:
  assumes "list_all2 sameCase S S'" and "pathFixesName S"
  shows "pathFixesName S'"
  unfolding pathFixesName_def list_all_iff
proof (intro ballI impI)
  fix f g assume f: "f \<in> set S'" and g: "g \<in> set S'"
    and eq: "lowerOf (relative_path f) = lowerOf (relative_path g)"
  obtain f0 where f0: "f0 \<in> set S" "sameCase f0 f"
    using list_all2_sameCase_mem[OF assms(1) f] by blast
  obtain g0 where g0: "g0 \<in> set S" "sameCase g0 g"
    using list_all2_sameCase_mem[OF assms(1) g] by blast
  have pf: "lowerOf (relative_path f0) = lowerOf (relative_path f)"
    and nf: "lowerOf (name f0) = lowerOf (name f)"
    using f0(2) unfolding sameCase_def by blast+
  have pg: "lowerOf (relative_path g0) = lowerOf (relative_path g)"
    and ng: "lowerOf (name g0) = lowerOf (name g)"
    using g0(2) unfolding sameCase_def by blast+
  have "lowerOf (relative_path f0) = lowerOf (relative_path g0)"
    using pf pg eq by (simp only:)
  then have "lowerOf (name f0) = lowerOf (name g0)"
    by (rule pathFixesNameD[OF assms(2) f0(1) g0(1)])
  then show "lowerOf (name f) = lowerOf (name g)"
    using nf ng by (simp only:)
qed

subsection \<open>The found file under a change of case\<close>

lemma repos_matchingSource_sameCase:
  assumes "list_all2 sameCase S S'" and "sameCase t t'"
  shows "rel_sum (=) (rel_option sameCase) (repos_matchingSource S t) (repos_matchingSource S' t')"
proof -
  have n: "lowerOf (name t') = lowerOf (name t)"
    and p: "lowerOf (relative_path t') = lowerOf (relative_path t)"
    using assms(2) unfolding sameCase_def by simp_all
  show ?thesis
    unfolding repos_matchingSource_def n p
    using findE_sameCase[OF assms(1) caseBlind_preds(1)]
    by (simp split: sum.splits)
qed

lemma details_matchingSource_sameCase:
  assumes "list_all2 sameCase S S'" and "sameCase t t'"
  shows "rel_sum (=) (rel_option sameCase)
           (details_matchingSource S t) (details_matchingSource S' t')"
proof -
  have n: "lowerOf (name t') = lowerOf (name t)"
    and p: "lowerOf (relative_path t') = lowerOf (relative_path t)"
    using assms(2) unfolding sameCase_def by simp_all
  show ?thesis
    unfolding details_matchingSource_def n p
    using findE_sameCase[OF assms(1) caseBlind_preds(3)]
    by (simp split: sum.splits)
qed

lemma repos_testSource_sameCase:
  assumes S: "list_all2 sameCase S S'" and A: "list_all2 sameCaseAnalysis A A'"
  shows "rel_sum (=) (rel_option sameCase) (repos_testSource S A g) (repos_testSource S' A' g)"
proof -
  have "rel_option sameCaseAnalysis (find (\<lambda>a. Some (ident a) = analysis_id g) A)
          (find (\<lambda>a. Some (ident a) = analysis_id g) A')"
    using find_sameCaseAnalysis[OF A, of "\<lambda>i. Some i = analysis_id g"] .
  then show ?thesis
  proof (cases rule: option.rel_cases)
    case None
    then show ?thesis by (simp add: repos_testSource_def)
  next
    case (Some a a')
    have lo: "lowerOf (file_path a) = lowerOf (file_path a')"
      using Some(3) by (simp add: sameCaseAnalysis_def)
    show ?thesis
      using Some(1,2) lo lowerOf_truthy[OF lo] findE_sameCase[OF S caseBlind_preds(2)]
      by (auto simp: repos_testSource_def split: sum.splits)
  qed
qed

lemma details_viaAnalysis_sameCase:
  assumes S: "list_all2 sameCase S S'" and A: "list_all2 sameCaseAnalysis A A'"
  shows "rel_sum (=) (rel_option sameCase)
           (details_viaAnalysis S A g) (details_viaAnalysis S' A' g)"
proof (cases "analysis_id g")
  case None
  then show ?thesis by (simp add: details_viaAnalysis_def)
next
  case (Some i)
  have "rel_option sameCaseAnalysis (find (\<lambda>a. ident a = i) A) (find (\<lambda>a. ident a = i) A')"
    using find_sameCaseAnalysis[OF A, of "\<lambda>j. j = i"] .
  then show ?thesis
  proof (cases rule: option.rel_cases)
    case None
    then show ?thesis using Some by (simp add: details_viaAnalysis_def)
  next
    case (Some a a')
    have lo: "lowerOf (file_path a) = lowerOf (file_path a')"
      using Some(3) by (simp add: sameCaseAnalysis_def)
    show ?thesis
      using \<open>analysis_id g = Some i\<close> Some(1,2) lo lowerOf_truthy[OF lo]
        findE_sameCase[OF S caseBlind_preds(4)]
      by (auto simp: details_viaAnalysis_def split: sum.splits)
  qed
qed

lemma details_viaTestFilePath_sameCase:
  assumes S: "list_all2 sameCase S S'"
  shows "rel_sum (=) (rel_option sameCase)
           (details_viaTestFilePath S g) (details_viaTestFilePath S' g)"
  using findE_sameCase[OF S caseBlind_preds(5)]
  by (auto simp: details_viaTestFilePath_def split: sum.splits)

lemma details_matchedSourceFile_sameCase:
  assumes S: "list_all2 sameCase S S'" and A: "list_all2 sameCaseAnalysis A A'"
  shows "rel_sum (=) (rel_option sameCase)
           (details_matchedSourceFile S A g) (details_matchedSourceFile S' A' g)"
  using details_viaAnalysis_sameCase[OF S A, of g] details_viaTestFilePath_sameCase[OF S, of g]
  by (auto simp: details_matchedSourceFile_def split: sum.splits option.splits
        elim!: rel_sum.cases option.rel_cases)

subsection \<open>Every added path comes from a file found by a case-blind callback\<close>

lemma repos_matchingSource_foundBy:
  "repos_matchingSource S t = Inr (Some m) \<Longrightarrow> foundBy S m"
  using caseBlind_preds(1)
  by (auto simp: repos_matchingSource_def foundBy_def split: sum.splits)

lemma details_matchingSource_foundBy:
  "details_matchingSource S t = Inr (Some m) \<Longrightarrow> foundBy S m"
  using caseBlind_preds(3)
  by (auto simp: details_matchingSource_def foundBy_def split: sum.splits)

lemma repos_testSource_foundBy:
  "repos_testSource S A g = Inr (Some m) \<Longrightarrow> foundBy S m"
  using caseBlind_preds(2)
  by (auto simp: repos_testSource_def foundBy_def split: sum.splits option.splits if_splits)

lemma details_matchedSourceFile_foundBy:
  "details_matchedSourceFile S A g = Inr (Some m) \<Longrightarrow> foundBy S m"
  using caseBlind_preds(4) caseBlind_preds(5)
  by (auto simp: details_matchedSourceFile_def details_viaAnalysis_def
        details_viaTestFilePath_def foundBy_def
      split: sum.splits option.splits if_splits)

subsection \<open>The two sets grow alike\<close>

lemma mem_transfer:
  assumes eq: "map (map_option toLowerCase) a = map (map_option toLowerCase) b"
    and fb: "\<forall>v\<in>set b. \<exists>m. foundBy Sb m \<and> relative_path m = v"
    and pf: "pathFixesName Sb" and mb: "foundBy Sb mb"
    and lo: "lowerOf (relative_path ma) = lowerOf (relative_path mb)"
    and mem: "relative_path ma \<in> set a"
  shows "relative_path mb \<in> set b"
proof -
  have "map_option toLowerCase (relative_path ma) \<in> set (map (map_option toLowerCase) a)"
    using mem by simp
  then have "map_option toLowerCase (relative_path ma) \<in> set (map (map_option toLowerCase) b)"
    unfolding eq .
  then obtain v where v: "v \<in> set b"
    and lv: "map_option toLowerCase v = map_option toLowerCase (relative_path ma)"
    by auto
  obtain m where m: "foundBy Sb m" and pm: "relative_path m = v"
    using fb v by blast
  have "lowerOf (relative_path m) = lowerOf (relative_path ma)"
    unfolding pm lowerOf_eq_iff by (rule lv)
  then have "lowerOf (relative_path m) = lowerOf (relative_path mb)"
    using lo by (simp only:)
  then have "m = mb" by (rule foundBy_unique[OF pf m mb])
  then show ?thesis using pm v by simp
qed

lemma sameCase_path:
  "sameCase m m' \<Longrightarrow> lowerOf (relative_path m) = lowerOf (relative_path m')"
  unfolding sameCase_def by (rule conjunct2)

lemma caseRelated_setAdd:
  assumes R: "caseRelated S S' a a'" and pf: "pathFixesName S" and pf': "pathFixesName S'"
    and m: "foundBy S m" and m': "foundBy S' m'" and sc: "sameCase m m'"
  shows "caseRelated S S' (setAdd (relative_path m) a) (setAdd (relative_path m') a')"
proof -
  have eq: "map (map_option toLowerCase) a = map (map_option toLowerCase) a'"
    and fa: "\<forall>v\<in>set a. \<exists>m. foundBy S m \<and> relative_path m = v"
    and fa': "\<forall>v\<in>set a'. \<exists>m. foundBy S' m \<and> relative_path m = v"
    using R unfolding caseRelated_def by blast+
  have lo: "lowerOf (relative_path m) = lowerOf (relative_path m')"
    by (rule sameCase_path[OF sc])
  have iff: "relative_path m \<in> set a \<longleftrightarrow> relative_path m' \<in> set a'"
  proof
    assume "relative_path m \<in> set a"
    then show "relative_path m' \<in> set a'"
      by (rule mem_transfer[OF eq fa' pf' m' lo])
  next
    assume "relative_path m' \<in> set a'"
    then show "relative_path m \<in> set a"
      by (rule mem_transfer[OF eq[symmetric] fa pf m lo[symmetric]])
  qed
  have lo': "map_option toLowerCase (relative_path m) = map_option toLowerCase (relative_path m')"
    using lo unfolding lowerOf_eq_iff .
  show ?thesis
  proof (cases "relative_path m \<in> set a")
    case True
    then show ?thesis using iff R by (simp add: setAdd_def)
  next
    case False
    then have F': "relative_path m' \<notin> set a'" using iff by simp
    have "caseRelated S S' (a @ [relative_path m]) (a' @ [relative_path m'])"
      unfolding caseRelated_def using eq fa fa' lo' m m' by auto
    then show ?thesis using False F' by (simp add: setAdd_def)
  qed
qed

lemma addFound_sameCase:
  assumes R: "caseRelated S S' a a'" and pf: "pathFixesName S" and pf': "pathFixesName S'"
    and rel: "rel_sum (=) (rel_option sameCase) r r'"
    and fr: "\<And>m. r = Inr (Some m) \<Longrightarrow> foundBy S m"
    and fr': "\<And>m. r' = Inr (Some m) \<Longrightarrow> foundBy S' m"
    and K: "\<And>m m'. sameCase m m' \<Longrightarrow> K m = K m'"
  shows "rel_sum (=) (caseRelated S S') (addFound K r a) (addFound K r' a')"
proof -
  consider (raised) e where "r = Inl e" "r' = Inl e"
    | (none) "r = Inr None" "r' = Inr None"
    | (some) m m' where "r = Inr (Some m)" "r' = Inr (Some m')" "sameCase m m'"
    using rel by (auto elim!: rel_sum.cases option.rel_cases)
  then show ?thesis
  proof cases
    case raised
    then show ?thesis by (simp add: addFound_def)
  next
    case none
    then show ?thesis using R by (simp add: addFound_def)
  next
    case some
    have f: "foundBy S m" "foundBy S' m'"
      using fr fr' some(1,2) by simp_all
    have k: "K m = K m'" using K some(3) by simp
    show ?thesis
      using some(1,2) k R caseRelated_setAdd[OF R pf pf' f some(3)]
      by (simp add: addFound_def)
  qed
qed

lemma two_loops_sameCase:
  fixes G :: "'g list"
  assumes pf: "pathFixesName S" and pf': "pathFixesName S'"
    and T: "list_all2 sameCase T T'"
    and F: "\<And>t t'. sameCase t t' \<Longrightarrow> rel_sum (=) (rel_option sameCase) (F t) (F' t')"
    and H: "\<And>g. rel_sum (=) (rel_option sameCase) (H g) (H' g)"
    and fF: "\<And>t m. F t = Inr (Some m) \<Longrightarrow> foundBy S m"
    and fF': "\<And>t m. F' t = Inr (Some m) \<Longrightarrow> foundBy S' m"
    and fH: "\<And>g m. H g = Inr (Some m) \<Longrightarrow> foundBy S m"
    and fH': "\<And>g m. H' g = Inr (Some m) \<Longrightarrow> foundBy S' m"
    and K: "\<And>m m'. sameCase m m' \<Longrightarrow> K m = K m'"
    and K': "\<And>m m'. sameCase m m' \<Longrightarrow> K' m = K' m'"
  shows "rel_sum (=) (caseRelated S S')
     (case forEachE (\<lambda>x. addFound K (F x)) T [] of Inl e \<Rightarrow> Inl e
      | Inr a \<Rightarrow> forEachE (\<lambda>g. addFound K' (H g)) G a)
     (case forEachE (\<lambda>x. addFound K (F' x)) T' [] of Inl e \<Rightarrow> Inl e
      | Inr a \<Rightarrow> forEachE (\<lambda>g. addFound K' (H' g)) G a)"
proof -
  have R0: "caseRelated S S' [] []" by (simp add: caseRelated_def)
  have 1: "rel_sum (=) (caseRelated S S') (forEachE (\<lambda>x. addFound K (F x)) T [])
             (forEachE (\<lambda>x. addFound K (F' x)) T' [])"
  proof (rule forEachE_rel[where Q = sameCase and R = "caseRelated S S'"])
    show "list_all2 sameCase T T'" by (rule T)
    show "caseRelated S S' [] []" by (rule R0)
  next
    fix x y a b assume "sameCase x y" and "caseRelated S S' a b"
    then show "rel_sum (=) (caseRelated S S') (addFound K (F x) a) (addFound K (F' y) b)"
      by (intro addFound_sameCase pf pf' F fF fF' K)
  qed
  then consider (raised) e where "forEachE (\<lambda>x. addFound K (F x)) T [] = Inl e"
        "forEachE (\<lambda>x. addFound K (F' x)) T' [] = Inl e"
    | (returned) a a' where "forEachE (\<lambda>x. addFound K (F x)) T [] = Inr a"
        "forEachE (\<lambda>x. addFound K (F' x)) T' [] = Inr a'" "caseRelated S S' a a'"
    by (auto elim!: rel_sum.cases)
  then show ?thesis
  proof cases
    case raised
    then show ?thesis by simp
  next
    case returned
    have "rel_sum (=) (caseRelated S S') (forEachE (\<lambda>g. addFound K' (H g)) G a)
             (forEachE (\<lambda>g. addFound K' (H' g)) G a')"
    proof (rule forEachE_rel[where Q = "(=)" and R = "caseRelated S S'"])
      show "list_all2 (=) G G" by (simp add: list.rel_eq)
      show "caseRelated S S' a a'" by (rule returned(3))
    next
      fix x y :: 'g and u v assume "x = y" and "caseRelated S S' u v"
      then show "rel_sum (=) (caseRelated S S') (addFound K' (H x) u) (addFound K' (H' y) v)"
        by (simp only:) (intro addFound_sameCase pf pf' H fH fH' K')
    qed
    then show ?thesis using returned(1,2) by simp
  qed
qed

lemma covered_to_coverage_sameCase:
  assumes "rel_sum (=) (caseRelated S S') r r'" and len: "length S = length S'"
  shows "rel_sum (=)
           (\<lambda>(c, p) (c', p'). length c = length c' \<and> p = p'
               \<and> map (map_option toLowerCase) c = map (map_option toLowerCase) c')
           (case r of Inl e \<Rightarrow> Inl e | Inr c \<Rightarrow> Inr (c, totalCoverage c S))
           (case r' of Inl e \<Rightarrow> Inl e | Inr c \<Rightarrow> Inr (c, totalCoverage c S'))"
proof -
  consider (raised) e where "r = Inl e" "r' = Inl e"
    | (returned) c c' where "r = Inr c" "r' = Inr c'" "caseRelated S S' c c'"
    using assms(1) by (auto elim!: rel_sum.cases)
  then show ?thesis
  proof cases
    case raised
    then show ?thesis by simp
  next
    case returned
    have m: "map (map_option toLowerCase) c = map (map_option toLowerCase) c'"
      using returned(3) unfolding caseRelated_def by (rule conjunct1)
    have l: "length c = length c'" using m by (rule map_eq_imp_length_eq)
    have "totalCoverage c S = totalCoverage c' S'"
      using l len by (simp add: totalCoverage_def)
    then show ?thesis using returned(1,2) m l by simp
  qed
qed

lemma repos_covered_sameCase:
  assumes S: "list_all2 sameCase S S'" and T: "list_all2 sameCase T T'"
    and A: "list_all2 sameCaseAnalysis A A'" and pf: "pathFixesName S"
  shows "rel_sum (=) (caseRelated S S') (repos_covered S T G A) (repos_covered S' T' G A')"
  unfolding repos_covered_def repos_testFileStep_shape repos_testStep_shape
proof (rule two_loops_sameCase[where S = S and S' = S'])
  show "pathFixesName S" by (rule pf)
  show "pathFixesName S'" by (rule pathFixesName_sameCase[OF S pf])
  show "list_all2 sameCase T T'" by (rule T)
  show "\<And>t t'. sameCase t t' \<Longrightarrow>
          rel_sum (=) (rel_option sameCase) (repos_matchingSource S t) (repos_matchingSource S' t')"
    by (rule repos_matchingSource_sameCase[OF S])
  show "\<And>g. rel_sum (=) (rel_option sameCase) (repos_testSource S A g) (repos_testSource S' A' g)"
    by (rule repos_testSource_sameCase[OF S A])
  show "\<And>t m. repos_matchingSource S t = Inr (Some m) \<Longrightarrow> foundBy S m"
    by (rule repos_matchingSource_foundBy)
  show "\<And>t m. repos_matchingSource S' t = Inr (Some m) \<Longrightarrow> foundBy S' m"
    by (rule repos_matchingSource_foundBy)
  show "\<And>g m. repos_testSource S A g = Inr (Some m) \<Longrightarrow> foundBy S m"
    by (rule repos_testSource_foundBy)
  show "\<And>g m. repos_testSource S' A' g = Inr (Some m) \<Longrightarrow> foundBy S' m"
    by (rule repos_testSource_foundBy)
qed simp_all

lemma details_covered_sameCase:
  assumes S: "list_all2 sameCase S S'" and T: "list_all2 sameCase T T'"
    and A: "list_all2 sameCaseAnalysis A A'" and pf: "pathFixesName S"
  shows "rel_sum (=) (caseRelated S S') (details_covered S T G A) (details_covered S' T' G A')"
  unfolding details_covered_def details_testFileStep_shape details_testStep_shape
proof (rule two_loops_sameCase[where S = S and S' = S'])
  show "pathFixesName S" by (rule pf)
  show "pathFixesName S'" by (rule pathFixesName_sameCase[OF S pf])
  show "list_all2 sameCase T T'" by (rule T)
  show "\<And>t t'. sameCase t t' \<Longrightarrow>
          rel_sum (=) (rel_option sameCase)
            (details_matchingSource S t) (details_matchingSource S' t')"
    by (rule details_matchingSource_sameCase[OF S])
  show "\<And>g. rel_sum (=) (rel_option sameCase)
            (details_matchedSourceFile S A g) (details_matchedSourceFile S' A' g)"
    by (rule details_matchedSourceFile_sameCase[OF S A])
  show "\<And>t m. details_matchingSource S t = Inr (Some m) \<Longrightarrow> foundBy S m"
    by (rule details_matchingSource_foundBy)
  show "\<And>t m. details_matchingSource S' t = Inr (Some m) \<Longrightarrow> foundBy S' m"
    by (rule details_matchingSource_foundBy)
  show "\<And>g m. details_matchedSourceFile S A g = Inr (Some m) \<Longrightarrow> foundBy S m"
    by (rule details_matchedSourceFile_foundBy)
  show "\<And>g m. details_matchedSourceFile S' A' g = Inr (Some m) \<Longrightarrow> foundBy S' m"
    by (rule details_matchedSourceFile_foundBy)
  show "\<And>m m'. sameCase m m' \<Longrightarrow> truthy (relative_path m) = truthy (relative_path m')"
    by (rule lowerOf_truthy[OF sameCase_path])
qed simp_all


lemma of_char_toLowerChar:
  "(of_char (toLowerChar c) :: nat) =
     (if (65 \<le> (of_char c :: nat) \<and> (of_char c :: nat) \<le> 90)
         \<or> (192 \<le> (of_char c :: nat) \<and> (of_char c :: nat) \<le> 222 \<and> (of_char c :: nat) \<noteq> 215)
      then of_char c + 32 else of_char c)"
  by (simp add: toLowerChar_def Let_def)

lemma toLowerChar_slash: "toLowerChar c = CHR ''/'' \<longleftrightarrow> c = CHR ''/''"
proof -
  have "toLowerChar c = CHR ''/'' \<longleftrightarrow> (of_char (toLowerChar c) :: nat) = of_char CHR ''/''"
    by (simp only: of_char_eq_iff)
  also have "\<dots> \<longleftrightarrow> (of_char c :: nat) = of_char CHR ''/''"
    unfolding of_char_toLowerChar by simp
  also have "\<dots> \<longleftrightarrow> c = CHR ''/''"
    by (simp only: of_char_eq_iff)
  finally show ?thesis .
qed

lemma split_Nil_never: "split c xs \<noteq> []"
  by (induction xs) (auto split: list.splits)

lemma split_map:
  assumes "\<And>x. f x = c \<longleftrightarrow> x = c"
  shows "split c (map f xs) = map (map f) (split c xs)"
proof (induction xs)
  case Nil
  show ?case by simp
next
  case (Cons x xs)
  obtain w ws where w: "split c xs = w # ws"
    using split_Nil_never[of c xs] by (cases "split c xs") auto
  show ?case using Cons w assms by simp
qed

lemma lastSegment_toLowerCase: "lastSegment (toLowerCase p) = toLowerCase (lastSegment p)"
  unfolding lastSegment_def toLowerCase_def
  by (simp add: split_map[where f = toLowerChar, OF toLowerChar_slash] last_map split_Nil_never)

lemma lastSegment_names_fix_case:
  assumes "list_all nameIsLastSegment S"
  shows "pathFixesName S"
  unfolding pathFixesName_def list_all_iff
proof (intro ballI impI)
  fix f g assume f: "f \<in> set S" and g: "g \<in> set S"
    and eq: "lowerOf (relative_path f) = lowerOf (relative_path g)"
  have nf: "name f = map_option lastSegment (relative_path f)"
    and ng: "name g = map_option lastSegment (relative_path g)"
    using assms f g unfolding list_all_iff nameIsLastSegment_def by blast+
  show "lowerOf (name f) = lowerOf (name g)"
  proof (cases "relative_path f")
    case None
    then have "relative_path g = None"
      using eq by (cases "relative_path g") (simp_all add: lowerOf_def)
    then show ?thesis using None nf ng by simp
  next
    case (Some p)
    then obtain q where q: "relative_path g = Some q"
      using eq by (cases "relative_path g") (simp_all add: lowerOf_def)
    have "toLowerCase p = toLowerCase q"
      using eq Some q by (simp add: lowerOf_def)
    then have "lastSegment (toLowerCase p) = lastSegment (toLowerCase q)" by (simp only:)
    then have "toLowerCase (lastSegment p) = toLowerCase (lastSegment q)"
      unfolding lastSegment_toLowerCase .
    then show ?thesis using Some q nf ng by (simp add: lowerOf_def)
  qed
qed


text \<open>
  C10, as amended.  Change the letter case of the names and relative paths of the source
  and test files and of the \<^verbatim>\<open>file_path\<close> of the analyses in any way.  Provided that source
  files whose relative paths agree up to letter case also have names that agree up to
  letter case (which is so when every name is the last segment of its relative path, by
  \<open>lastSegment_names_fix_case\<close>), each page either raises in both cases or returns in
  both, with the same number of covered paths, the same percentage, and covered paths that
  agree up to letter case.
\<close>

theorem coverage_invariant_under_case_change:
  assumes "list_all2 sameCase S S'" and "list_all2 sameCase T T'"
    and "list_all2 sameCaseAnalysis A A'" and "pathFixesName S"
  shows "rel_sum (=)
           (\<lambda>(c, p) (c', p'). length c = length c' \<and> p = p'
               \<and> map (map_option toLowerCase) c = map (map_option toLowerCase) c')
           (repos_coverage S T G A) (repos_coverage S' T' G A')
       \<and> rel_sum (=)
           (\<lambda>(c, p) (c', p'). length c = length c' \<and> p = p'
               \<and> map (map_option toLowerCase) c = map (map_option toLowerCase) c')
           (details_coverage S T G A) (details_coverage S' T' G A')"
proof -
  have len: "length S = length S'" using assms(1) by (rule list_all2_lengthD)
  show ?thesis
    unfolding repos_coverage_def details_coverage_def
    by (intro conjI covered_to_coverage_sameCase len
          repos_covered_sameCase[OF assms] details_covered_sameCase[OF assms])
qed

theorem coverage_invariant_under_case_change_witness:
  "list_all2 sameCase [calc_py_upper] [calc_py]
   \<and> list_all2 sameCase [test_calc_py] [test_calc_py]
   \<and> list_all2 sameCaseAnalysis [] [] \<and> pathFixesName [calc_py_upper]
   \<and> rel_sum (=)
        (\<lambda>(c, p) (c', p'). length c = length c' \<and> p = p'
            \<and> map (map_option toLowerCase) c = map (map_option toLowerCase) c')
        (repos_coverage [calc_py_upper] [test_calc_py] [] [])
        (repos_coverage [calc_py] [test_calc_py] [] [])
   \<and> repos_coverage [calc_py_upper] [test_calc_py] [] [] = Inr ([Some ''SRC/Calc.py''], 100)
   \<and> repos_coverage [calc_py] [test_calc_py] [] [] = Inr ([Some ''src/calc.py''], 100)"
proof -
  have sc: "sameCase calc_py_upper calc_py" by code_simp
  have h1: "list_all2 sameCase [calc_py_upper] [calc_py]" using sc by simp
  have h2: "list_all2 sameCase [test_calc_py] [test_calc_py]" by (simp add: sameCase_def)
  have h3: "list_all2 sameCaseAnalysis [] []" by simp
  have h4: "pathFixesName [calc_py_upper]" by (simp add: pathFixesName_def)
  note W = coverage_invariant_under_case_change[OF h1 h2 h3 h4, of "[]"]
  note C = W[THEN conjunct1]
  have v1: "repos_coverage [calc_py_upper] [test_calc_py] [] []
              = Inr ([Some ''SRC/Calc.py''], 100)"
    by code_simp
  have v2: "repos_coverage [calc_py] [test_calc_py] [] [] = Inr ([Some ''src/calc.py''], 100)"
    by code_simp
  show ?thesis using h1 h2 h3 h4 C v1 v2 by (intro conjI)
qed

theorem case_change_merges_paths_counterexample:
  "sameCase mod_a_upper mod_a_lower
   \<and> repos_coverage [mod_a_upper, mod_b] [test_a_py, test_b_py] [] []
       = Inr ([Some ''Src/mod.py'', Some ''src/mod.py''], 100)
   \<and> repos_coverage [mod_a_lower, mod_b] [test_a_py, test_b_py] [] []
       = Inr ([Some ''src/mod.py''], 50)
   \<and> details_coverage [mod_a_upper, mod_b] [test_a_py, test_b_py] [] []
       = Inr ([Some ''Src/mod.py'', Some ''src/mod.py''], 100)
   \<and> details_coverage [mod_a_lower, mod_b] [test_a_py, test_b_py] [] []
       = Inr ([Some ''src/mod.py''], 50)"
proof -
  have 1: "sameCase mod_a_upper mod_a_lower" by code_simp
  have 2: "repos_coverage [mod_a_upper, mod_b] [test_a_py, test_b_py] [] []
       = Inr ([Some ''Src/mod.py'', Some ''src/mod.py''], 100)"
    by code_simp
  have 3: "repos_coverage [mod_a_lower, mod_b] [test_a_py, test_b_py] [] []
       = Inr ([Some ''src/mod.py''], 50)"
    by code_simp
  have 4: "details_coverage [mod_a_upper, mod_b] [test_a_py, test_b_py] [] []
       = Inr ([Some ''Src/mod.py'', Some ''src/mod.py''], 100)"
    by code_simp
  have 5: "details_coverage [mod_a_lower, mod_b] [test_a_py, test_b_py] [] []
       = Inr ([Some ''src/mod.py''], 50)"
    by code_simp
  show ?thesis using 1 2 3 4 5 by (intro conjI)
qed

end
